theory Spec2Isabelle
  imports Main
begin

section \<open>Source positions, tokens and errors\<close>

text \<open>
  A character of the source string is modelled by a \<^typ>\<open>char\<close>: the UTF-16 code
  units below 256. Strings are \<^typ>\<open>string\<close>.
\<close>

record position =
  line :: nat
  column :: nat
  offset :: nat

record location =
  start :: position
  finish :: position

datatype TokenType =
  COMMAND | LBRACE | RBRACE | PIPE | LONG_FLAG | SHORT_FLAG
  | STRING | VALUE | CONTENT | NEWLINE | EOF

record token =
  ttype :: TokenType
  tvalue :: string
  tloc :: location

text \<open>
  The tokenizer throws a plain \<open>Error\<close> that carries only a message; the parser throws
  a \<open>ParseError\<close> with a message and the location of the current token. Reading
  \<open>.type\<close> of a token beyond the end of the token array is a run-time \<open>TypeError\<close>.
\<close>

datatype error =
  LexError string
  | ParseError string location
  | TypeError

text \<open>Decimal rendering of a number inside a template string.\<close>

definition digit_char :: "nat \<Rightarrow> char" where
  "digit_char d = (''0123456789'' ! d)"

function show_nat :: "nat \<Rightarrow> string" where
  "show_nat n = (if n < 10 then [digit_char n] else show_nat (n div 10) @ [digit_char (n mod 10)])"
  by pat_completeness auto
termination
  by (relation "measure (\<lambda>n. n)") auto

declare show_nat.simps [simp del]

definition TokenType_name :: "TokenType \<Rightarrow> string" where
  "TokenType_name ty = (case ty of
      COMMAND \<Rightarrow> ''COMMAND'' | LBRACE \<Rightarrow> ''LBRACE'' | RBRACE \<Rightarrow> ''RBRACE''
    | PIPE \<Rightarrow> ''PIPE'' | LONG_FLAG \<Rightarrow> ''LONG_FLAG'' | SHORT_FLAG \<Rightarrow> ''SHORT_FLAG''
    | STRING \<Rightarrow> ''STRING'' | VALUE \<Rightarrow> ''VALUE'' | CONTENT \<Rightarrow> ''CONTENT''
    | NEWLINE \<Rightarrow> ''NEWLINE'' | EOF \<Rightarrow> ''EOF'')"

section \<open>The tokenizer (src/parser/tokenizer.ts)\<close>

text \<open>
  The scanner's mutable fields. \<open>rest\<close> is the unread part of the source,
  \<open>source.slice(pos)\<close>; \<open>pos\<close> is the index of its first character.
\<close>

record tokenizer =
  rest :: string
  pos :: nat
  cur_line :: nat
  cur_column :: nat
  tokens :: "token list"
  canStartCommand :: bool
  inCommandMode :: bool
  currentCommand :: string

definition new_tokenizer :: "string \<Rightarrow> tokenizer" where
  "new_tokenizer src =
     \<lparr>rest = src, pos = 0, cur_line = 1, cur_column = 1, tokens = [],
      canStartCommand = True, inCommandMode = False, currentCommand = []\<rparr>"

definition RAW_BLOCK_COMMANDS :: "string set" where
  "RAW_BLOCK_COMMANDS = {''code'', ''style'', ''list''}"

subsection \<open>Helper methods\<close>

definition isAtEnd :: "tokenizer \<Rightarrow> bool" where
  "isAtEnd s = (rest s = [])"

definition peek :: "tokenizer \<Rightarrow> char" where
  "peek s = (case rest s of [] \<Rightarrow> CHR 0x00 | c # _ \<Rightarrow> c)"

definition peekNext :: "tokenizer \<Rightarrow> char" where
  "peekNext s = (case rest s of _ # c # _ \<Rightarrow> c | _ \<Rightarrow> CHR 0x00)"

text \<open>
  \<open>advance\<close> moves over one character; the character it returns is \<open>peek\<close> of the
  state before. Every call in the source is made with \<open>pos < source.length\<close>.
\<close>

definition advance :: "tokenizer \<Rightarrow> tokenizer" where
  "advance s = s\<lparr>rest := tl (rest s), pos := pos s + 1, cur_column := cur_column s + 1\<rparr>"

text \<open>The two statements \<open>this.line++; this.column = 1\<close>.\<close>

definition newline :: "tokenizer \<Rightarrow> tokenizer" where
  "newline s = s\<lparr>cur_line := cur_line s + 1, cur_column := 1\<rparr>"

definition isLetter :: "char \<Rightarrow> bool" where
  "isLetter c = (c \<in> set ''abcdefghijklmnopqrstuvwxyzABCDEFGHIJKLMNOPQRSTUVWXYZ'')"

definition isIdentifierChar :: "char \<Rightarrow> bool" where
  "isIdentifierChar c =
     (c \<in> set ''abcdefghijklmnopqrstuvwxyzABCDEFGHIJKLMNOPQRSTUVWXYZ0123456789_-'')"

text \<open>The regular expression class \<open>\s\<close>, and the characters \<open>trim()\<close> strips.\<close>

definition isWhiteSpace :: "char \<Rightarrow> bool" where
  "isWhiteSpace c = (c \<in> {CHR 0x09, CHR 0x0A, CHR 0x0B, CHR 0x0C, CHR 0x0D, CHR 0x20, CHR 0xA0})"

definition isValueChar :: "char \<Rightarrow> bool" where
  "isValueChar c = (\<not> (isWhiteSpace c \<or> c = CHR ''{'' \<or> c = CHR ''}'' \<or> c = CHR ''|''
                        \<or> c = CHR 0x0A))"

definition currentPosition :: "tokenizer \<Rightarrow> position" where
  "currentPosition s = \<lparr>line = cur_line s, column = cur_column s, offset = pos s\<rparr>"

definition currentLocation :: "tokenizer \<Rightarrow> location" where
  "currentLocation s = \<lparr>start = currentPosition s, finish = currentPosition s\<rparr>"

definition addToken :: "TokenType \<Rightarrow> string \<Rightarrow> position \<Rightarrow> tokenizer \<Rightarrow> tokenizer" where
  "addToken ty v st s =
     s\<lparr>tokens := tokens s @
          [\<lparr>ttype = ty, tvalue = v, tloc = \<lparr>start = st, finish = currentPosition s\<rparr>\<rparr>]\<rparr>"

definition lex_error :: "string \<Rightarrow> position \<Rightarrow> error" where
  "lex_error message p =
     LexError (message @ '' at line '' @ show_nat (line p) @ '', column '' @ show_nat (column p))"

definition trim :: "string \<Rightarrow> string" where
  "trim text = rev (dropWhile isWhiteSpace (rev (dropWhile isWhiteSpace text)))"

text \<open>\<open>text.split("\n")\<close> and \<open>lines.join("\n")\<close>.\<close>

fun split_lines :: "string \<Rightarrow> string list" where
  "split_lines [] = [[]]"
| "split_lines (c # cs) =
     (if c = CHR 0x0A then [] # split_lines cs
      else (case split_lines cs of [] \<Rightarrow> [[c]] | l # ls \<Rightarrow> (c # l) # ls))"

fun join_lines :: "string list \<Rightarrow> string" where
  "join_lines [] = []"
| "join_lines [l] = l"
| "join_lines (l # ls) = l @ CHR 0x0A # join_lines ls"

definition trimBlankLines :: "string \<Rightarrow> string" where
  "trimBlankLines text =
     (let lines0 = split_lines text;
          lines1 = dropWhile (\<lambda>l. trim l = []) lines0;
          lines2 = rev (dropWhile (\<lambda>l. trim l = []) (rev lines1))
      in join_lines lines2)"

subsection \<open>Scanning loops\<close>

text \<open>
  The loop \<open>while (!isAtEnd() && P(peek())) acc += advance()\<close>, which reads a command
  name, a flag name (\<open>P = isIdentifierChar\<close>) or an unquoted value (\<open>P = isValueChar\<close>).
\<close>

function scanWhile :: "(char \<Rightarrow> bool) \<Rightarrow> string \<Rightarrow> tokenizer \<Rightarrow> string \<times> tokenizer" where
  "scanWhile P acc s =
     (if \<not> isAtEnd s \<and> P (peek s) then scanWhile P (acc @ [peek s]) (advance s)
      else (acc, s))"
  by pat_completeness auto
termination
  by (relation "measure (\<lambda>(P, acc, s). length (rest s))") (auto simp: isAtEnd_def advance_def)

declare scanWhile.simps [simp del]

definition scanCommand :: "position \<Rightarrow> tokenizer \<Rightarrow> error + tokenizer" where
  "scanCommand st s =
     (let s1 = advance s;
          (name, s2) = scanWhile isIdentifierChar [] s1
      in if name = [] then Inl (lex_error ''Expected command name after /'' st)
         else Inr ((addToken COMMAND name st s2)
                     \<lparr>canStartCommand := False, inCommandMode := True, currentCommand := name\<rparr>))"

text \<open>The \<open>switch\<close> on the character after a backslash.\<close>

definition unescape :: "char \<Rightarrow> char" where
  "unescape escaped =
     (if escaped = CHR ''n'' then CHR 0x0A
      else if escaped = CHR ''t'' then CHR 0x09
      else escaped)"

function scanString_loop :: "char \<Rightarrow> string \<Rightarrow> tokenizer \<Rightarrow> string \<times> tokenizer" where
  "scanString_loop quote v s =
     (if \<not> isAtEnd s \<and> peek s \<noteq> quote then
        (if peek s = CHR 0x5C then
           (let s1 = advance s
            in if \<not> isAtEnd s1 then scanString_loop quote (v @ [unescape (peek s1)]) (advance s1)
               else scanString_loop quote v s1)
         else if peek s = CHR 0x0A then scanString_loop quote (v @ [peek s]) (newline (advance s))
         else scanString_loop quote (v @ [peek s]) (advance s))
      else (v, s))"
  by pat_completeness auto
termination
  by (relation "measure (\<lambda>(q, v, s). length (rest s))")
     (auto simp: isAtEnd_def advance_def newline_def)

declare scanString_loop.simps [simp del]

definition scanString :: "position \<Rightarrow> tokenizer \<Rightarrow> error + tokenizer" where
  "scanString st s =
     (let quote = peek s;
          (v, s1) = scanString_loop quote [] (advance s)
      in if isAtEnd s1 then Inl (lex_error ''Unterminated string'' st)
         else Inr (addToken STRING v st (advance s1)))"

definition scanCommandPart :: "position \<Rightarrow> tokenizer \<Rightarrow> error + tokenizer" where
  "scanCommandPart st s =
     (let char = peek s in
      if char = CHR ''|'' then Inr (addToken PIPE ''|'' st (advance s))
      else if char = CHR ''-'' \<and> peekNext s = CHR ''-'' then
        (let (name, s1) = scanWhile isIdentifierChar [] (advance (advance s))
         in if name = [] then Inl (lex_error ''Expected flag name after --'' st)
            else Inr (addToken LONG_FLAG name st s1))
      else if char = CHR ''-'' \<and> isLetter (peekNext s) then
        (let s1 = advance s; flag = peek s1
         in Inr (addToken SHORT_FLAG [flag] st (advance s1)))
      else if char = CHR 0x22 \<or> char = CHR 0x27 then scanString st s
      else if char = CHR ''{'' then Inr (s\<lparr>inCommandMode := False, canStartCommand := True\<rparr>)
      else if isValueChar char then
        (let (v, s1) = scanWhile isValueChar [] s in Inr (addToken VALUE v st s1))
      else Inl (lex_error (''Unexpected character '' @ [CHR 0x27, char, CHR 0x27] @ '' in command'') st))"

function scanRawBlock_loop :: "nat \<Rightarrow> string \<Rightarrow> tokenizer \<Rightarrow> string \<times> tokenizer" where
  "scanRawBlock_loop depth content s =
     (if \<not> isAtEnd s \<and> depth > 0 then
        (let char = peek s in
         if char = CHR ''{'' then scanRawBlock_loop (depth + 1) (content @ [char]) (advance s)
         else if char = CHR ''}'' then
           (if depth - 1 > 0 then scanRawBlock_loop (depth - 1) (content @ [char]) (advance s)
            else scanRawBlock_loop (depth - 1) content s)
         else if char = CHR 0x0A then
           scanRawBlock_loop depth (content @ [char]) (newline (advance s))
         else scanRawBlock_loop depth (content @ [char]) (advance s))
      else (content, s))"
  by pat_completeness auto
termination
  by (relation "measure (\<lambda>(d, c, s). 2 * length (rest s) + d)")
     (auto simp: isAtEnd_def advance_def newline_def neq_Nil_conv)

declare scanRawBlock_loop.simps [simp del]

definition scanRawBlock :: "position \<Rightarrow> tokenizer \<Rightarrow> tokenizer" where
  "scanRawBlock st s =
     (let s1 = addToken LBRACE ''{'' st (advance s);
          contentStart = currentPosition s1;
          (content, s2) = scanRawBlock_loop 1 [] s1;
          trimmedContent = trimBlankLines content;
          s3 = (if length trimmedContent > 0 then addToken CONTENT trimmedContent contentStart s2
                else s2);
          s4 = (if \<not> isAtEnd s3 \<and> peek s3 = CHR ''}''
                then (let closeStart = currentPosition s3
                      in addToken RBRACE ''}'' closeStart (advance s3))
                else s3)
      in s4\<lparr>canStartCommand := True, inCommandMode := False, currentCommand := []\<rparr>)"

definition matchCodeFence :: "tokenizer \<Rightarrow> bool" where
  "matchCodeFence s =
     (case rest s of
        a # b # c # _ \<Rightarrow> a = CHR 0x60 \<and> b = CHR 0x60 \<and> c = CHR 0x60
      | _ \<Rightarrow> False)"

definition consumeCodeFence :: "tokenizer \<Rightarrow> string \<times> tokenizer" where
  "consumeCodeFence s =
     (let s1 = advance s; s2 = advance s1; s3 = advance s2
      in scanWhile (\<lambda>c. c \<noteq> CHR 0x0A) [peek s, peek s1, peek s2] s3)"

subsection \<open>Content scanning\<close>

text \<open>
  Closed form of the character loop, and the bounds the termination proofs of the
  scanners below rest on.
\<close>

lemma scanWhile_eq:
  "scanWhile P acc s =
     (acc @ takeWhile P (rest s),
      s\<lparr>rest := dropWhile P (rest s),
        pos := pos s + length (takeWhile P (rest s)),
        cur_column := cur_column s + length (takeWhile P (rest s))\<rparr>)"
proof (induction "rest s" arbitrary: s acc)
  case Nil
  then show ?case
    by (subst scanWhile.simps) (simp add: isAtEnd_def)
next
  case (Cons c cs)
  have r: "rest (advance s) = cs"
    using Cons.hyps(2) by (simp add: advance_def flip: Cons.hyps(2))
  show ?case
  proof (cases "P c")
    case True
    have "scanWhile P acc s = scanWhile P (acc @ [c]) (advance s)"
      using True Cons.hyps(2) [symmetric]
      by (subst scanWhile.simps) (simp add: isAtEnd_def peek_def)
    also have "\<dots> = (acc @ [c] @ takeWhile P cs,
        (advance s)\<lparr>rest := dropWhile P cs,
          pos := pos (advance s) + length (takeWhile P cs),
          cur_column := cur_column (advance s) + length (takeWhile P cs)\<rparr>)"
      using Cons.hyps(1) [of "advance s" "acc @ [c]"] r by simp
    finally show ?thesis
      using True Cons.hyps(2) [symmetric] by (simp add: advance_def)
  next
    case False
    then show ?thesis
      using Cons.hyps(2) [symmetric]
      by (subst scanWhile.simps) (simp add: isAtEnd_def peek_def)
  qed
qed

lemma scanWhile_rest_le: "length (rest (snd (scanWhile P acc s))) \<le> length (rest s)"
  by (simp add: scanWhile_eq length_dropWhile_le)

lemma consumeCodeFence_shorter:
  "matchCodeFence s \<Longrightarrow> length (rest (snd (consumeCodeFence s))) < length (rest s)"
  by (auto simp: matchCodeFence_def consumeCodeFence_def scanWhile_eq advance_def
        le_imp_less_Suc length_dropWhile_le less_SucI split: list.splits)

text \<open>
  One iteration of the \<open>while\<close> loop of \<open>scanContent\<close>, entered with
  \<open>!isAtEnd()\<close>: \<open>None\<close> is \<open>break\<close>, \<open>Some\<close> carries \<open>inCodeFence\<close>, \<open>content\<close> and
  the scanner into the next iteration.
\<close>

definition scanContent_body ::
    "bool \<Rightarrow> string \<Rightarrow> tokenizer \<Rightarrow> (bool \<times> string \<times> tokenizer) option" where
  "scanContent_body inCodeFence content s =
     (let char = peek s in
      if char = CHR 0x60 \<and> canStartCommand s \<and> matchCodeFence s then
        (let (fence, s1) = consumeCodeFence s
         in Some (\<not> inCodeFence, content @ fence, s1\<lparr>canStartCommand := False\<rparr>))
      else if inCodeFence then
        (if char = CHR 0x0A then
           Some (inCodeFence, content @ [char], (newline (advance s))\<lparr>canStartCommand := True\<rparr>)
         else Some (inCodeFence, content @ [char], (advance s)\<lparr>canStartCommand := False\<rparr>))
      else if char = CHR 0x60 then
        (let (c1, s1) = scanWhile (\<lambda>c. c \<noteq> CHR 0x60 \<and> c \<noteq> CHR 0x0A)
                           (content @ [char]) (advance s);
             (c2, s2) = (if peek s1 = CHR 0x60 then (c1 @ [peek s1], advance s1) else (c1, s1))
         in Some (inCodeFence, c2, s2\<lparr>canStartCommand := False\<rparr>))
      else if char = CHR ''{'' \<or> char = CHR ''}'' then None
      else if char = CHR ''/'' \<and> canStartCommand s then None
      else if char = CHR 0x0A then
        Some (inCodeFence, content @ [char], (newline (advance s))\<lparr>canStartCommand := True\<rparr>)
      else if (char = CHR '' '' \<or> char = CHR 0x09) \<and> canStartCommand s then
        Some (inCodeFence, content @ [char], advance s)
      else Some (inCodeFence, content @ [char], (advance s)\<lparr>canStartCommand := False\<rparr>))"

lemma rest_addToken [simp]: "rest (addToken ty v st s) = rest s"
  by (simp add: addToken_def)

lemma rest_newline [simp]: "rest (newline s) = rest s"
  by (simp add: newline_def)

lemma rest_advance [simp]: "rest (advance s) = tl (rest s)"
  by (simp add: advance_def)

lemma scanContent_body_shorter:
  assumes "scanContent_body f c s = Some (f', c', s')" and "rest s \<noteq> []"
  shows "length (rest s') < length (rest s)"
proof -
  obtain x xs where r: "rest s = x # xs"
    using assms(2) by (cases "rest s") simp_all
  have dw: "length (dropWhile P xs) < Suc (length xs)" for P :: "char \<Rightarrow> bool"
    by (simp add: le_imp_less_Suc length_dropWhile_le)
  have dw': "length (dropWhile P xs) - Suc 0 < Suc (length xs)" for P :: "char \<Rightarrow> bool"
    using dw [of P] by simp
  have fence: "matchCodeFence s \<Longrightarrow> length (rest (snd (consumeCodeFence s))) < Suc (length xs)"
    using consumeCodeFence_shorter [of s] r by simp
  show ?thesis
    using assms(1) r dw dw' fence
    by (auto simp: scanContent_body_def Let_def scanWhile_eq split: if_splits prod.splits)
qed

function scanContent_loop :: "bool \<Rightarrow> string \<Rightarrow> tokenizer \<Rightarrow> string \<times> tokenizer" where
  "scanContent_loop inCodeFence content s =
     (if isAtEnd s then (content, s)
      else (case scanContent_body inCodeFence content s of
              None \<Rightarrow> (content, s)
            | Some (inCodeFence', content', s') \<Rightarrow> scanContent_loop inCodeFence' content' s'))"
  by pat_completeness auto
termination
  by (relation "measure (\<lambda>(f, c, s). length (rest s))")
     (auto simp: isAtEnd_def scanContent_body_shorter)

declare scanContent_loop.simps [simp del]

definition scanContent :: "position \<Rightarrow> tokenizer \<Rightarrow> tokenizer" where
  "scanContent st s =
     (let (content, s1) = scanContent_loop False [] s
      in if length (trim content) > 0 then addToken CONTENT content st s1 else s1)"

subsection \<open>The main scanner\<close>

definition scanToken :: "tokenizer \<Rightarrow> error + tokenizer" where
  "scanToken s =
     (let st = currentPosition s; char = peek s in
      if (char = CHR '' '' \<or> char = CHR 0x09 \<or> char = CHR 0x0D)
         \<and> (inCommandMode s \<or> \<not> canStartCommand s) then Inr (advance s)
      else if char = CHR 0x0A then
        Inr ((newline (advance s))\<lparr>canStartCommand := True, inCommandMode := False\<rparr>)
      else if char = CHR ''{'' then
        (if currentCommand s \<in> RAW_BLOCK_COMMANDS then Inr (scanRawBlock st s)
         else Inr ((addToken LBRACE ''{'' st (advance s))
                     \<lparr>canStartCommand := True, inCommandMode := False\<rparr>))
      else if char = CHR ''}'' then
        Inr ((addToken RBRACE ''}'' st (advance s))
               \<lparr>canStartCommand := True, inCommandMode := False\<rparr>)
      else if char = CHR ''/'' \<and> canStartCommand s then scanCommand st s
      else if inCommandMode s then scanCommandPart st s
      else Inr (scanContent st s))"

subsection \<open>Every call of scanToken consumes input\<close>

lemma scanString_loop_rest_le:
  "length (rest (snd (scanString_loop q v s))) \<le> length (rest s)"
proof (induction q v s rule: scanString_loop.induct)
  case (1 quote v s)
  show ?case
    using 1 by (subst scanString_loop.simps)
      (auto simp: Let_def isAtEnd_def dest!: le_trans [OF _ diff_le_self])
qed

lemma scanRawBlock_loop_rest_le:
  "length (rest (snd (scanRawBlock_loop d c s))) \<le> length (rest s)"
proof (induction d c s rule: scanRawBlock_loop.induct)
  case (1 depth content s)
  show ?case
    using 1 by (subst scanRawBlock_loop.simps)
      (auto simp: Let_def isAtEnd_def dest!: le_trans [OF _ diff_le_self])
qed

lemma scanContent_loop_rest_le:
  "length (rest (snd (scanContent_loop f c s))) \<le> length (rest s)"
proof (induction f c s rule: scanContent_loop.induct)
  case (1 inCodeFence content s)
  show ?case
  proof (cases "isAtEnd s \<or> scanContent_body inCodeFence content s = None")
    case True
    then show ?thesis
      by (subst scanContent_loop.simps) auto
  next
    case False
    then obtain f' c' s' where b: "scanContent_body inCodeFence content s = Some (f', c', s')"
      and ne: "rest s \<noteq> []"
      by (auto simp: isAtEnd_def)
    have "length (rest (snd (scanContent_loop f' c' s'))) \<le> length (rest s')"
      using 1 [OF _ b] ne by (simp add: isAtEnd_def)
    moreover have "length (rest s') < length (rest s)"
      using scanContent_body_shorter [OF b ne] .
    ultimately show ?thesis
      using b ne by (subst scanContent_loop.simps) (simp add: isAtEnd_def)
  qed
qed

lemma scanContent_shorter:
  assumes "rest s \<noteq> []" and "peek s \<noteq> CHR 0x0A" and "peek s \<noteq> CHR ''{''" and "peek s \<noteq> CHR ''}''"
    and "\<not> (peek s = CHR ''/'' \<and> canStartCommand s)"
  shows "length (rest (scanContent st s)) < length (rest s)"
proof -
  have "scanContent_body False [] s \<noteq> None"
    using assms(2-5) by (auto simp: scanContent_body_def Let_def split: prod.splits)
  then obtain f' c' s' where b: "scanContent_body False [] s = Some (f', c', s')"
    by (cases "scanContent_body False [] s") auto
  have "scanContent_loop False [] s = scanContent_loop f' c' s'"
    using b assms(1) by (subst scanContent_loop.simps) (simp add: isAtEnd_def)
  moreover have "length (rest (snd (scanContent_loop f' c' s'))) < length (rest s)"
    using scanContent_loop_rest_le [of f' c' s'] scanContent_body_shorter [OF b assms(1)] by simp
  ultimately show ?thesis
    by (auto simp: scanContent_def split: prod.splits)
qed

lemma scanRawBlock_shorter:
  assumes "rest s \<noteq> []"
  shows "length (rest (scanRawBlock st s)) < length (rest s)"
proof -
  have "length (rest (snd (scanRawBlock_loop 1 [] (addToken LBRACE ''{'' st (advance s)))))
          \<le> length (tl (rest s))"
    using scanRawBlock_loop_rest_le [of 1 "[]" "addToken LBRACE ''{'' st (advance s)"] by simp
  moreover have "length (tl (rest s)) < length (rest s)"
    using assms by (cases "rest s") simp_all
  ultimately show ?thesis
    by (auto simp: scanRawBlock_def Let_def split: prod.splits)
qed

lemma scanCommand_shorter:
  assumes "rest s \<noteq> []" and "scanCommand st s = Inr s'"
  shows "length (rest s') < length (rest s)"
proof -
  obtain x xs where r: "rest s = x # xs"
    using assms(1) by (cases "rest s") simp_all
  have "length (dropWhile isIdentifierChar xs) < Suc (length xs)"
    by (simp add: le_imp_less_Suc length_dropWhile_le)
  then show ?thesis
    using assms(2) r
    by (auto simp: scanCommand_def Let_def scanWhile_eq split: if_splits)
qed

lemma scanString_shorter:
  assumes "rest s \<noteq> []" and "scanString st s = Inr s'"
  shows "length (rest s') < length (rest s)"
proof -
  have "length (rest (snd (scanString_loop (peek s) [] (advance s)))) \<le> length (tl (rest s))"
    using scanString_loop_rest_le [of "peek s" "[]" "advance s"] by simp
  moreover have "length (tl (rest s)) < length (rest s)"
    using assms(1) by (cases "rest s") simp_all
  ultimately show ?thesis
    using assms(2)
    by (auto simp: scanString_def Let_def split: prod.splits if_splits)
qed

lemma scanCommandPart_shorter:
  assumes "rest s \<noteq> []" and "peek s \<noteq> CHR ''{''" and "scanCommandPart st s = Inr s'"
  shows "length (rest s') < length (rest s)"
proof -
  obtain x xs where r: "rest s = x # xs"
    using assms(1) by (cases "rest s") simp_all
  have dw: "length (dropWhile P xs) < Suc (length xs)" for P :: "char \<Rightarrow> bool"
    by (simp add: le_imp_less_Suc length_dropWhile_le)
  have dw': "length (dropWhile P (tl xs)) < Suc (length xs)" for P :: "char \<Rightarrow> bool"
    using length_dropWhile_le [of P "tl xs"] by simp
  have str: "scanString st s = Inr s' \<Longrightarrow> length (rest s') < Suc (length xs)"
    using scanString_shorter [OF assms(1)] r by simp
  show ?thesis
    using assms(2,3) r dw dw' str
    by (auto simp: scanCommandPart_def Let_def scanWhile_eq peek_def split: if_splits)
qed

lemma scanToken_shorter:
  assumes "\<not> isAtEnd s" and "scanToken s = Inr s'"
  shows "length (rest s') < length (rest s)"
proof -
  have ne: "rest s \<noteq> []"
    using assms(1) by (simp add: isAtEnd_def)
  then have tl: "length (tl (rest s)) < length (rest s)"
    by (cases "rest s") simp_all
  show ?thesis
    using assms(2) ne tl scanRawBlock_shorter [OF ne] scanCommand_shorter [OF ne]
      scanCommandPart_shorter [OF ne] scanContent_shorter [OF ne]
    by (auto simp: scanToken_def Let_def split: if_splits)
qed

subsection \<open>tokenize\<close>

function tokenize_loop :: "tokenizer \<Rightarrow> error + tokenizer" where
  "tokenize_loop s =
     (if isAtEnd s then Inr s
      else (case scanToken s of Inl e \<Rightarrow> Inl e | Inr s' \<Rightarrow> tokenize_loop s'))"
  by pat_completeness auto
termination
  by (relation "measure (\<lambda>s. length (rest s))") (auto simp: scanToken_shorter)

declare tokenize_loop.simps [simp del]

definition tokenize :: "string \<Rightarrow> error + token list" where
  "tokenize src =
     (case tokenize_loop (new_tokenizer src) of
        Inl e \<Rightarrow> Inl e
      | Inr s \<Rightarrow> Inr (tokens s @ [\<lparr>ttype = EOF, tvalue = [], tloc = currentLocation s\<rparr>]))"


section \<open>The abstract syntax tree (src/parser/ast.ts)\<close>

datatype argument =
    PositionalArg (arg_value: string) (arg_loc: location)
  | FlagArg (flag_name: string) (short: bool) (flag_value: "string option") (flag_loc: location)

datatype pipe = Pipe (pipe_name: string) (pipe_args: "argument list") (pipe_loc: location)

datatype node =
    Command (cmd_name: string) (cmd_args: "argument list") (cmd_block: "block option")
      (cmd_pipes: "pipe list option") (cmd_loc: location)
  | Content (content_value: string) (content_loc: location)
and block = Block (block_children: "node list") (block_loc: location)

datatype document = Document (doc_children: "node list")

section \<open>The parser (src/parser/parser.ts)\<close>

text \<open>
  The parser's cursor is modelled by the tokens from \<open>pos\<close> onward,
  \<open>tokens.slice(pos)\<close>. \<open>peek()\<close> on the empty list is the read of \<open>.type\<close> of
  \<open>undefined\<close>, a \<open>TypeError\<close>. \<open>advance\<close> is only called at a token that is not
  \<open>EOF\<close>, where it moves one token forward and returns the token it passed.
\<close>

definition parse_error :: "string \<Rightarrow> token list \<Rightarrow> error" where
  "parse_error message ts =
     (case ts of
        [] \<Rightarrow> TypeError
      | t # _ \<Rightarrow>
          ParseError (message @ '' at line '' @ show_nat (line (start (tloc t)))
                        @ '', column '' @ show_nat (column (start (tloc t))))
                     (tloc t))"

definition consume :: "TokenType \<Rightarrow> string \<Rightarrow> token list \<Rightarrow> error + (token \<times> token list)" where
  "consume ty message ts =
     (case ts of
        [] \<Rightarrow> Inl TypeError
      | t # ts' \<Rightarrow>
          if ttype t = ty then Inr (t, ts')
          else Inl (parse_error (message @ '', got '' @ TokenType_name (ttype t)) ts))"

definition parseOptionalValue :: "token list \<Rightarrow> error + (string option \<times> token list)" where
  "parseOptionalValue ts =
     (case ts of
        [] \<Rightarrow> Inl TypeError
      | t # ts' \<Rightarrow>
          if ttype t = VALUE \<or> ttype t = STRING then Inr (Some (tvalue t), ts')
          else Inr (None, ts))"

lemma parseOptionalValue_le:
  "parseOptionalValue ts = Inr (v, ts') \<Longrightarrow> length ts' \<le> length ts"
  by (auto simp: parseOptionalValue_def split: list.splits if_splits)

lemma consume_shorter:
  "consume ty m ts = Inr (t, ts') \<Longrightarrow> length ts' < length ts"
  by (auto simp: consume_def split: list.splits if_splits)

function parseArgs_loop ::
    "argument list \<Rightarrow> token list \<Rightarrow> error + (argument list \<times> token list)" where
  "parseArgs_loop args ts =
     (case ts of
        [] \<Rightarrow> Inl TypeError
      | t # ts' \<Rightarrow>
          if ttype t = EOF then Inr (args, ts)
          else if ttype t = LBRACE \<or> ttype t = PIPE \<or> ttype t = CONTENT
                  \<or> ttype t = COMMAND \<or> ttype t = RBRACE then Inr (args, ts)
          else if ttype t = LONG_FLAG then
            (case parseOptionalValue ts' of
               Inl e \<Rightarrow> Inl e
             | Inr (v, ts'') \<Rightarrow>
                 parseArgs_loop (args @ [FlagArg (tvalue t) False v (tloc t)]) ts'')
          else if ttype t = SHORT_FLAG then
            (case parseOptionalValue ts' of
               Inl e \<Rightarrow> Inl e
             | Inr (v, ts'') \<Rightarrow>
                 parseArgs_loop (args @ [FlagArg (tvalue t) True v (tloc t)]) ts'')
          else if ttype t = VALUE \<or> ttype t = STRING then
            parseArgs_loop (args @ [PositionalArg (tvalue t) (tloc t)]) ts'
          else Inr (args, ts))"
  by pat_completeness auto
termination
  by (relation "measure (\<lambda>(args, ts). length ts)")
     (auto simp: le_imp_less_Suc dest: parseOptionalValue_le)

declare parseArgs_loop.simps [simp del]

definition parseArgs :: "token list \<Rightarrow> error + (argument list \<times> token list)" where
  "parseArgs ts = parseArgs_loop [] ts"

function parsePipeArgs_loop ::
    "argument list \<Rightarrow> token list \<Rightarrow> error + (argument list \<times> token list)" where
  "parsePipeArgs_loop args ts =
     (case ts of
        [] \<Rightarrow> Inl TypeError
      | t # ts' \<Rightarrow>
          if ttype t = EOF then Inr (args, ts)
          else if ttype t = PIPE \<or> ttype t = CONTENT \<or> ttype t = COMMAND
                  \<or> ttype t = LBRACE \<or> ttype t = RBRACE then Inr (args, ts)
          else if ttype t = VALUE \<or> ttype t = STRING then
            parsePipeArgs_loop (args @ [PositionalArg (tvalue t) (tloc t)]) ts'
          else Inr (args, ts))"
  by pat_completeness auto
termination
  by (relation "measure (\<lambda>(args, ts). length ts)") auto

declare parsePipeArgs_loop.simps [simp del]

definition parsePipeArgs :: "token list \<Rightarrow> error + (argument list \<times> token list)" where
  "parsePipeArgs ts = parsePipeArgs_loop [] ts"

lemma parsePipeArgs_loop_le:
  "parsePipeArgs_loop args ts = Inr (args', ts') \<Longrightarrow> length ts' \<le> length ts"
proof (induction args ts rule: parsePipeArgs_loop.induct)
  case (1 args ts)
  show ?case
    using "1.prems" "1.IH"
    by (subst (asm) parsePipeArgs_loop.simps) (auto split: list.splits if_splits)
qed

lemma parseArgs_loop_le:
  "parseArgs_loop args ts = Inr (args', ts') \<Longrightarrow> length ts' \<le> length ts"
proof (induction args ts rule: parseArgs_loop.induct)
  case (1 args ts)
  show ?case
    using "1.prems" "1.IH"
    by (subst (asm) parseArgs_loop.simps)
       (auto split: list.splits if_splits sum.splits dest!: parseOptionalValue_le,
        (meson le_SucI le_trans)+)
qed

function parsePipes_loop :: "pipe list \<Rightarrow> token list \<Rightarrow> error + (pipe list \<times> token list)" where
  "parsePipes_loop pipes ts =
     (case ts of
        [] \<Rightarrow> Inl TypeError
      | t # ts1 \<Rightarrow>
          if ttype t = PIPE then
            (case consume VALUE ''Expected pipe name after |'' ts1 of
               Inl e \<Rightarrow> Inl e
             | Inr (nameToken, ts2) \<Rightarrow>
                 (case parsePipeArgs ts2 of
                    Inl e \<Rightarrow> Inl e
                  | Inr (args, ts3) \<Rightarrow>
                      parsePipes_loop
                        (pipes @ [Pipe (tvalue nameToken) args (tloc nameToken)]) ts3))
          else Inr (pipes, ts))"
  by pat_completeness auto
termination
  by (relation "measure (\<lambda>(pipes, ts). length ts)")
     (auto simp: parsePipeArgs_def dest!: parsePipeArgs_loop_le consume_shorter)

declare parsePipes_loop.simps [simp del]

definition parsePipes :: "token list \<Rightarrow> error + (pipe list \<times> token list)" where
  "parsePipes ts = parsePipes_loop [] ts"

definition parseContent :: "token list \<Rightarrow> error + (node \<times> token list)" where
  "parseContent ts =
     (case consume CONTENT ''Expected content'' ts of
        Inl e \<Rightarrow> Inl e
      | Inr (t, ts') \<Rightarrow> Inr (Content (tvalue t) (tloc t), ts'))"


lemma parsePipes_loop_le:
  "parsePipes_loop ps ts = Inr (ps', ts') \<Longrightarrow> length ts' \<le> length ts"
proof (induction ps ts rule: parsePipes_loop.induct)
  case (1 pipes ts)
  show ?case
    using "1.prems" "1.IH"
    by (subst (asm) parsePipes_loop.simps)
       (auto simp: parsePipeArgs_def split: list.splits if_splits sum.splits
          dest!: parsePipeArgs_loop_le consume_shorter,
        (meson le_SucI le_trans less_imp_le_nat)+)
qed

lemma parseContent_shorter:
  "parseContent ts = Inr (c, ts') \<Longrightarrow> length ts' < length ts"
  by (auto simp: parseContent_def split: sum.splits dest: consume_shorter)

text \<open>
  The last step of \<open>parseCommand\<close>:
  \<open>if (!block && this.check("PIPE")) pipes = this.parsePipes()\<close>.
\<close>

definition parseCommand_pipes ::
    "block option \<Rightarrow> token list \<Rightarrow> error + (pipe list option \<times> token list)" where
  "parseCommand_pipes block ts =
     (if block = None then
        (case ts of
           [] \<Rightarrow> Inl TypeError
         | t # _ \<Rightarrow>
             if ttype t = PIPE then
               (case parsePipes ts of
                  Inl e \<Rightarrow> Inl e
                | Inr (ps, ts') \<Rightarrow> Inr (Some ps, ts'))
             else Inr (None, ts))
      else Inr (None, ts))"

lemma parseCommand_pipes_le:
  "parseCommand_pipes block ts = Inr (ps, ts') \<Longrightarrow> length ts' \<le> length ts"
  by (auto simp: parseCommand_pipes_def parsePipes_def split: sum.splits list.splits if_splits
        dest: parsePipes_loop_le)

function parseChildren_loop :: "node list \<Rightarrow> token list \<Rightarrow> error + (node list \<times> token list)"
  and parseCommand :: "token list \<Rightarrow> error + (node \<times> token list)"
  and parseBlock :: "token list \<Rightarrow> error + (block \<times> token list)"
where
  "parseChildren_loop children ts =
     (case ts of
        [] \<Rightarrow> Inl TypeError
      | t # ts' \<Rightarrow>
          if ttype t = EOF \<or> ttype t = RBRACE then Inr (children, ts)
          else if ttype t = COMMAND then
            (case parseCommand ts of
               Inl e \<Rightarrow> Inl e
             | Inr (c, ts1) \<Rightarrow> parseChildren_loop (children @ [c]) ts1)
          else if ttype t = CONTENT then
            (case parseContent ts of
               Inl e \<Rightarrow> Inl e
             | Inr (c, ts1) \<Rightarrow> parseChildren_loop (children @ [c]) ts1)
          else if ttype t = LBRACE then Inl (parse_error ''Unexpected { without command'' ts)
          else parseChildren_loop children ts')"
| "parseCommand ts =
     (case consume COMMAND ''Expected command name'' ts of
        Inl e \<Rightarrow> Inl e
      | Inr (commandToken, ts1) \<Rightarrow>
          (case parseArgs ts1 of
             Inl e \<Rightarrow> Inl e
           | Inr (args, ts2) \<Rightarrow>
               (case (case ts2 of
                        [] \<Rightarrow> Inl TypeError
                      | t # _ \<Rightarrow>
                          if ttype t = LBRACE then
                            (case parseBlock ts2 of
                               Inl e \<Rightarrow> Inl e
                             | Inr (b, ts3) \<Rightarrow> Inr (Some b, ts3))
                          else Inr (None, ts2)) of
                  Inl e \<Rightarrow> Inl e
                | Inr (block, ts3) \<Rightarrow>
                    (case parseCommand_pipes block ts3 of
                       Inl e \<Rightarrow> Inl e
                     | Inr (pipes, ts4) \<Rightarrow>
                         Inr (Command (tvalue commandToken) args block pipes
                                (tloc commandToken), ts4)))))"
| "parseBlock ts =
     (case consume LBRACE ''Expected {'' ts of
        Inl e \<Rightarrow> Inl e
      | Inr (lbrace, ts1) \<Rightarrow>
          (case parseChildren_loop [] ts1 of
             Inl e \<Rightarrow> Inl e
           | Inr (children, ts2) \<Rightarrow>
               (case consume RBRACE ''Expected }'' ts2 of
                  Inl e \<Rightarrow> Inl e
                | Inr (rbrace, ts3) \<Rightarrow>
                    Inr (Block children
                           \<lparr>start = start (tloc lbrace), finish = finish (tloc rbrace)\<rparr>,
                         ts3))))"
  by pat_completeness auto


lemma bind2E:
  assumes "(case m of Inl e \<Rightarrow> Inl e | Inr (a, b) \<Rightarrow> g a b) = Inr y"
  obtains a b where "m = Inr (a, b)" and "g a b = Inr y"
  using assms by (cases m) auto

lemma parser_shorter_partial:
  "parseChildren_loop_parseCommand_parseBlock_dom (Inl (children, ts)) \<Longrightarrow>
     \<forall>cs ts'. parseChildren_loop children ts = Inr (cs, ts') \<longrightarrow> length ts' \<le> length ts"
  "parseChildren_loop_parseCommand_parseBlock_dom (Inr (Inl ts1)) \<Longrightarrow>
     \<forall>c ts'. parseCommand ts1 = Inr (c, ts') \<longrightarrow> length ts' < length ts1"
  "parseChildren_loop_parseCommand_parseBlock_dom (Inr (Inr ts2)) \<Longrightarrow>
     \<forall>b ts'. parseBlock ts2 = Inr (b, ts') \<longrightarrow> length ts' < length ts2"
proof (induct children ts and ts1 and ts2 rule: parseChildren_loop_parseCommand_parseBlock.pinduct)
  case (1 children ts)
  show ?case
  proof (intro allI impI)
    fix cs ts'
    assume r: "parseChildren_loop children ts = Inr (cs, ts')"
    note r' = r [unfolded parseChildren_loop.psimps [OF "1.hyps"(1)]]
    from r' obtain t ts0 where ts: "ts = t # ts0"
      by (cases ts) auto
    consider (stop) "ttype t = EOF \<or> ttype t = RBRACE"
      | (cmd) "\<not> (ttype t = EOF \<or> ttype t = RBRACE)" "ttype t = COMMAND"
      | (cont) "\<not> (ttype t = EOF \<or> ttype t = RBRACE)" "ttype t \<noteq> COMMAND" "ttype t = CONTENT"
      | (lbrace) "\<not> (ttype t = EOF \<or> ttype t = RBRACE)" "ttype t \<noteq> COMMAND"
          "ttype t \<noteq> CONTENT" "ttype t = LBRACE"
      | (skip) "\<not> (ttype t = EOF \<or> ttype t = RBRACE)" "ttype t \<noteq> COMMAND"
          "ttype t \<noteq> CONTENT" "ttype t \<noteq> LBRACE"
      by blast
    then show "length ts' \<le> length ts"
    proof cases
      case stop
      with r' ts show ?thesis by auto
    next
      case cmd
      with r' ts obtain c ts1 where pc: "parseCommand ts = Inr (c, ts1)"
        and l: "parseChildren_loop (children @ [c]) ts1 = Inr (cs, ts')"
        by (auto split: sum.splits)
      have "length ts1 < length ts"
        using "1.hyps"(2) [OF ts cmd] pc by blast
      moreover have "length ts' \<le> length ts1"
        using "1.hyps"(3) [OF ts cmd pc refl] l by blast
      ultimately show ?thesis by simp
    next
      case cont
      with r' ts obtain c ts1 where pc: "parseContent ts = Inr (c, ts1)"
        and l: "parseChildren_loop (children @ [c]) ts1 = Inr (cs, ts')"
        by (auto split: sum.splits)
      have "length ts1 < length ts"
        using parseContent_shorter [OF pc] .
      moreover have "length ts' \<le> length ts1"
        using "1.hyps"(4) [OF ts cont pc refl] l by blast
      ultimately show ?thesis by simp
    next
      case lbrace
      with r' ts show ?thesis by auto
    next
      case skip
      with r' ts have l: "parseChildren_loop children ts0 = Inr (cs, ts')"
        by auto
      have "length ts' \<le> length ts0"
        using "1.hyps"(5) [OF ts skip] l by blast
      then show ?thesis using ts by simp
    qed
  qed
next
  case (2 ts)
  show ?case
  proof (intro allI impI)
    fix c ts'
    assume r: "parseCommand ts = Inr (c, ts')"
    note r' = r [unfolded parseCommand.psimps [OF "2.hyps"(1)]]
    from r' obtain commandToken ts1 where
      c1: "consume COMMAND ''Expected command name'' ts = Inr (commandToken, ts1)"
      and r1: "(case parseArgs ts1 of
             Inl e \<Rightarrow> Inl e
           | Inr (args, ts2) \<Rightarrow>
               (case (case ts2 of
                        [] \<Rightarrow> Inl TypeError
                      | t # _ \<Rightarrow>
                          if ttype t = LBRACE then
                            (case parseBlock ts2 of
                               Inl e \<Rightarrow> Inl e
                             | Inr (b, ts3) \<Rightarrow> Inr (Some b, ts3))
                          else Inr (None, ts2)) of
                  Inl e \<Rightarrow> Inl e
                | Inr (block, ts3) \<Rightarrow>
                    (case parseCommand_pipes block ts3 of
                       Inl e \<Rightarrow> Inl e
                     | Inr (pipes, ts4) \<Rightarrow>
                         Inr (Command (tvalue commandToken) args block pipes
                                (tloc commandToken), ts4)))) = Inr (c, ts')"
      by (rule bind2E)
    from r1 obtain args ts2 where c2: "parseArgs ts1 = Inr (args, ts2)"
      and r2: "(case (case ts2 of
                        [] \<Rightarrow> Inl TypeError
                      | t # _ \<Rightarrow>
                          if ttype t = LBRACE then
                            (case parseBlock ts2 of
                               Inl e \<Rightarrow> Inl e
                             | Inr (b, ts3) \<Rightarrow> Inr (Some b, ts3))
                          else Inr (None, ts2)) of
                  Inl e \<Rightarrow> Inl e
                | Inr (block, ts3) \<Rightarrow>
                    (case parseCommand_pipes block ts3 of
                       Inl e \<Rightarrow> Inl e
                     | Inr (pipes, ts4) \<Rightarrow>
                         Inr (Command (tvalue commandToken) args block pipes
                                (tloc commandToken), ts4))) = Inr (c, ts')"
      by (rule bind2E)
    from r2 obtain block ts3 where
      c3: "(case ts2 of
              [] \<Rightarrow> Inl TypeError
            | t # _ \<Rightarrow>
                if ttype t = LBRACE then
                  (case parseBlock ts2 of
                     Inl e \<Rightarrow> Inl e
                   | Inr (b, ts3) \<Rightarrow> Inr (Some b, ts3))
                else Inr (None, ts2)) = Inr (block, ts3)"
      and r3: "(case parseCommand_pipes block ts3 of
                       Inl e \<Rightarrow> Inl e
                     | Inr (pipes, ts4) \<Rightarrow>
                         Inr (Command (tvalue commandToken) args block pipes
                                (tloc commandToken), ts4)) = Inr (c, ts')"
      by (rule bind2E)
    from c3 obtain t2 ts2' where ts2: "ts2 = t2 # ts2'"
      by (cases ts2) auto
    have l3: "length ts3 \<le> length ts2"
    proof (cases "ttype t2 = LBRACE")
      case True
      with c3 ts2 obtain b where "parseBlock ts2 = Inr (b, ts3)"
        by (auto split: sum.splits)
      then show ?thesis
        using "2.hyps"(2) [OF c1 refl c2 refl ts2 True] by (simp add: less_imp_le)
    next
      case False
      with c3 ts2 show ?thesis by simp
    qed
    have l4: "length ts' \<le> length ts3"
      using r3 by (auto split: sum.splits dest: parseCommand_pipes_le)
    have "length ts1 < length ts"
      using consume_shorter [OF c1] .
    moreover have "length ts2 \<le> length ts1"
      using c2 parseArgs_loop_le by (simp add: parseArgs_def)
    ultimately show "length ts' < length ts"
      using l3 l4 by simp
  qed
next
  case (3 ts)
  show ?case
  proof (intro allI impI)
    fix b ts'
    assume r: "parseBlock ts = Inr (b, ts')"
    note r' = r [unfolded parseBlock.psimps [OF "3.hyps"(1)]]
    from r' obtain lbrace ts1 where c1: "consume LBRACE ''Expected {'' ts = Inr (lbrace, ts1)"
      by (auto split: sum.splits)
    from r' c1 obtain children ts2 where c2: "parseChildren_loop [] ts1 = Inr (children, ts2)"
      by (auto split: sum.splits)
    from r' c1 c2 obtain rbrace where c3: "consume RBRACE ''Expected }'' ts2 = Inr (rbrace, ts')"
      by (auto split: sum.splits)
    have "length ts2 \<le> length ts1"
      using "3.hyps"(2) [OF c1 refl] c2 by blast
    then show "length ts' < length ts"
      using consume_shorter [OF c1] consume_shorter [OF c3] by simp
  qed
qed

termination parseChildren_loop
proof (relation "measure (case_sum (\<lambda>(c, ts). 2 * length ts + 1)
                    (case_sum (\<lambda>ts. 2 * length ts) (\<lambda>ts. 2 * length ts)))", goal_cases)
  case 1
  show ?case by simp
next
  case (2 children ts x21 x22)
  show ?case by simp
next
  case (3 children ts x21 x22 b x y)
  then have "parseCommand ts = Inr (x, y)"
    by simp
  then have "length y < length ts"
    using parser_shorter_partial(2) [OF 3(6)] by blast
  then show ?case by simp
next
  case (4 children ts x21 x22 b x y)
  then have "parseContent ts = Inr (x, y)"
    by simp
  then show ?case
    using parseContent_shorter by fastforce
next
  case (5 children ts x21 x22)
  then show ?case by simp
next
  case (6 ts b x y ba xa ya x21 x22)
  then have "consume COMMAND ''Expected command name'' ts = Inr (x, y)"
    and "parseArgs_loop [] y = Inr (xa, ya)"
    by (simp_all add: parseArgs_def)
  then have "length ya < length ts"
    using consume_shorter parseArgs_loop_le by fastforce
  then show ?case by simp
next
  case (7 ts b x y)
  then have "consume LBRACE ''Expected {'' ts = Inr (x, y)"
    by simp
  then have "length y < length ts"
    by (rule consume_shorter)
  then show ?case by simp
qed


declare parseChildren_loop.simps [simp del] parseCommand.simps [simp del] parseBlock.simps [simp del]

definition parseChildren :: "token list \<Rightarrow> error + (node list \<times> token list)" where
  "parseChildren ts = parseChildren_loop [] ts"

text \<open>\<open>parse(source)\<close>: tokenize, then \<open>new Parser(tokens).parse()\<close>.\<close>

definition parse :: "string \<Rightarrow> error + document" where
  "parse source =
     (case tokenize source of
        Inl e \<Rightarrow> Inl e
      | Inr toks \<Rightarrow>
          (case parseChildren toks of
             Inl e \<Rightarrow> Inl e
           | Inr (children, _) \<Rightarrow> Inr (Document children)))"

section \<open>Properties of the tokenizer and the parser\<close>

text \<open>
  The type and the text of a token, without its location.
\<close>

definition token_kinds :: "token list \<Rightarrow> (TokenType \<times> string) list" where
  "token_kinds ts = map (\<lambda>t. (ttype t, tvalue t)) ts"

lemma isLetter_facts:
  assumes "isLetter c"
  shows "c \<noteq> CHR ''-''" and "isValueChar c" and "isIdentifierChar c"
  using assms by (auto simp: isLetter_def isValueChar_def isIdentifierChar_def isWhiteSpace_def)

subsection \<open>Short flags\<close>

text \<open>
  C4 (counterexample). The claim says that \<open>-ab\<close> is not matched by the short-flag rule
  and ends in the "unexpected character" lexical error. In the source the rule only
  looks at the character after the dash: \<open>/x -ab\<close> is tokenized without any error, as
  \<open>COMMAND x\<close>, \<open>SHORT_FLAG a\<close>, \<open>VALUE b\<close>, \<open>EOF\<close>.
\<close>

theorem short_flag_two_letters_no_error:
  "tokenize ''/x -ab'' = Inr
     [\<lparr>ttype = COMMAND, tvalue = ''x'',
        tloc = \<lparr>start = \<lparr>line = 1, column = 1, offset = 0\<rparr>,
                finish = \<lparr>line = 1, column = 3, offset = 2\<rparr>\<rparr>\<rparr>,
      \<lparr>ttype = SHORT_FLAG, tvalue = ''a'',
        tloc = \<lparr>start = \<lparr>line = 1, column = 4, offset = 3\<rparr>,
                finish = \<lparr>line = 1, column = 6, offset = 5\<rparr>\<rparr>\<rparr>,
      \<lparr>ttype = VALUE, tvalue = ''b'',
        tloc = \<lparr>start = \<lparr>line = 1, column = 6, offset = 5\<rparr>,
                finish = \<lparr>line = 1, column = 7, offset = 6\<rparr>\<rparr>\<rparr>,
      \<lparr>ttype = EOF, tvalue = [],
        tloc = \<lparr>start = \<lparr>line = 1, column = 7, offset = 6\<rparr>,
                finish = \<lparr>line = 1, column = 7, offset = 6\<rparr>\<rparr>\<rparr>]"
  by code_simp

text \<open>
  C4 (amended). In command mode a dash followed by a letter is lexed as a
  \<open>SHORT_FLAG\<close> token whose value is that single letter, whatever follows the letter.
  When the letter is followed by a further identifier character other than a dash, the
  next call of the scanner lexes the characters up to the next delimiter as a \<open>VALUE\<close>
  token; no lexical error is raised.
\<close>

theorem short_flag_lexing:
  assumes "inCommandMode s" and "rest s = CHR ''-'' # c # r" and "isLetter c"
  shows "scanToken s = Inr (addToken SHORT_FLAG [c] (currentPosition s) (advance (advance s)))
       \<and> (\<forall>c2 r2. r = c2 # r2 \<and> isIdentifierChar c2 \<and> c2 \<noteq> CHR ''-'' \<longrightarrow>
            (\<exists>s1 s2. scanToken s = Inr s1 \<and> scanToken s1 = Inr s2
               \<and> token_kinds (tokens s2) =
                   token_kinds (tokens s) @ [(SHORT_FLAG, [c]), (VALUE, takeWhile isValueChar r)]
               \<and> rest s2 = dropWhile isValueChar r))"
proof (intro conjI allI impI)
  show first: "scanToken s = Inr (addToken SHORT_FLAG [c] (currentPosition s) (advance (advance s)))"
    using assms isLetter_facts(1) [OF assms(3)]
    by (simp add: scanToken_def scanCommandPart_def peek_def peekNext_def Let_def advance_def)
  fix c2 r2
  assume h: "r = c2 # r2 \<and> isIdentifierChar c2 \<and> c2 \<noteq> CHR ''-''"
  define s1 where "s1 = addToken SHORT_FLAG [c] (currentPosition s) (advance (advance s))"
  have s1: "inCommandMode s1" "rest s1 = c2 # r2" "tokens s1 = tokens s @
      [\<lparr>ttype = SHORT_FLAG, tvalue = [c],
        tloc = \<lparr>start = currentPosition s, finish = currentPosition (advance (advance s))\<rparr>\<rparr>]"
    using assms h by (simp_all add: s1_def addToken_def advance_def)
  have c2: "isValueChar c2" "c2 \<noteq> CHR ''/''" "c2 \<noteq> CHR ''|''" "c2 \<noteq> CHR 0x22" "c2 \<noteq> CHR 0x27"
    "c2 \<noteq> CHR '' ''" "c2 \<noteq> CHR 0x09" "c2 \<noteq> CHR 0x0D" "c2 \<noteq> CHR 0x0A" "c2 \<noteq> CHR ''{''"
    "c2 \<noteq> CHR ''}''" "c2 \<noteq> CHR ''-''"
    using h by (auto simp: isIdentifierChar_def isValueChar_def isWhiteSpace_def)
  define s2 where "s2 = addToken VALUE (takeWhile isValueChar r) (currentPosition s1)
                          (snd (scanWhile isValueChar [] s1))"
  have second: "scanToken s1 = Inr s2"
    using s1 c2 h
    by (simp add: s2_def scanToken_def scanCommandPart_def peek_def Let_def scanWhile_eq)
  have s2: "token_kinds (tokens s2) =
              token_kinds (tokens s) @ [(SHORT_FLAG, [c]), (VALUE, takeWhile isValueChar r)]"
    "rest s2 = dropWhile isValueChar r"
    using s1 h c2(1) by (simp_all add: s2_def token_kinds_def addToken_def scanWhile_eq)
  have "scanToken s = Inr s1"
    using first by (simp add: s1_def)
  then show "\<exists>s1 s2. scanToken s = Inr s1 \<and> scanToken s1 = Inr s2
          \<and> token_kinds (tokens s2) =
              token_kinds (tokens s) @ [(SHORT_FLAG, [c]), (VALUE, takeWhile isValueChar r)]
          \<and> rest s2 = dropWhile isValueChar r"
    using second s2 by blast
qed

theorem short_flag_lexing_witness:
  "inCommandMode
     \<lparr>rest = ''-ab'', pos = 3, cur_line = 1, cur_column = 4, tokens = [],
      canStartCommand = False, inCommandMode = True, currentCommand = ''x''\<rparr>
   \<and> isLetter (CHR ''a'')
   \<and> scanToken
       \<lparr>rest = ''-ab'', pos = 3, cur_line = 1, cur_column = 4, tokens = [],
        canStartCommand = False, inCommandMode = True, currentCommand = ''x''\<rparr>
     = Inr \<lparr>rest = ''b'', pos = 5, cur_line = 1, cur_column = 6,
            tokens = [\<lparr>ttype = SHORT_FLAG, tvalue = ''a'',
                       tloc = \<lparr>start = \<lparr>line = 1, column = 4, offset = 3\<rparr>,
                               finish = \<lparr>line = 1, column = 6, offset = 5\<rparr>\<rparr>\<rparr>],
            canStartCommand = False, inCommandMode = True, currentCommand = ''x''\<rparr>"
  using short_flag_lexing
    [of "\<lparr>rest = ''-ab'', pos = 3, cur_line = 1, cur_column = 4, tokens = [],
          canStartCommand = False, inCommandMode = True, currentCommand = ''x''\<rparr>"
        "CHR ''a''" "''b''"]
  by (simp add: isLetter_def addToken_def advance_def currentPosition_def)

subsection \<open>Unterminated strings\<close>

text \<open>
  A string body without closing quote: no unescaped occurrence of the quote character;
  a backslash escapes the character after it.
\<close>

fun no_closing_quote :: "char \<Rightarrow> string \<Rightarrow> bool" where
  "no_closing_quote q [] = True"
| "no_closing_quote q [c] = (c \<noteq> q)"
| "no_closing_quote q (c # d # cs) =
     (c \<noteq> q \<and> (if c = CHR 0x5C then no_closing_quote q cs else no_closing_quote q (d # cs)))"

lemma scanString_loop_no_closing_quote:
  "no_closing_quote q (rest s) \<Longrightarrow> isAtEnd (snd (scanString_loop q v s))"
proof (induction q "rest s" arbitrary: v s rule: no_closing_quote.induct)
  case (1 q)
  then show ?case
    by (subst scanString_loop.simps) (simp add: isAtEnd_def)
next
  case (2 q c)
  have e: "isAtEnd (advance s)" "isAtEnd (newline (advance s))"
    using "2.hyps" [symmetric] by (simp_all add: isAtEnd_def)
  have stop: "snd (scanString_loop q v' s') = s'" if "isAtEnd s'" for v' s'
    using that by (subst scanString_loop.simps) simp
  show ?case
    using "2.hyps" [symmetric] "2.prems" e
    by (subst scanString_loop.simps) (simp add: isAtEnd_def peek_def Let_def stop)
next
  case (3 q c d cs)
  have r: "rest (advance s) = d # cs" "rest (advance (advance s)) = cs"
    "rest (newline (advance s)) = d # cs"
    using "3.hyps"(3) [symmetric] by simp_all
  show ?case
  proof (cases "c = CHR 0x5C")
    case True
    then have "no_closing_quote q cs" "c \<noteq> q"
      using "3.prems" "3.hyps"(3) [symmetric] by simp_all
    then show ?thesis
      using "3.hyps"(1) [OF True, of "advance (advance s)"] r True "3.hyps"(3) [symmetric]
      by (subst scanString_loop.simps) (simp add: isAtEnd_def peek_def Let_def)
  next
    case False
    then have "no_closing_quote q (d # cs)" "c \<noteq> q"
      using "3.prems" "3.hyps"(3) [symmetric] by simp_all
    then show ?thesis
      using "3.hyps"(2) [OF False, of "advance s"] "3.hyps"(2) [OF False, of "newline (advance s)"]
        r False "3.hyps"(3) [symmetric]
      by (subst scanString_loop.simps) (simp add: isAtEnd_def peek_def Let_def)
  qed
qed

lemma no_closing_quote_notin: "q \<notin> set body \<Longrightarrow> no_closing_quote q body"
  by (induction q body rule: no_closing_quote.induct) auto

lemma scanString_unterminated:
  assumes "rest s = q # body" and "no_closing_quote q body"
  shows "scanString st s = Inl (lex_error ''Unterminated string'' st)"
proof -
  have "isAtEnd (snd (scanString_loop q [] (advance s)))"
    using assms by (intro scanString_loop_no_closing_quote) simp
  then show ?thesis
    using assms(1) by (auto simp: scanString_def peek_def Let_def split: prod.splits)
qed

lemma scanToken_quote:
  assumes "inCommandMode s" and "rest s = q # body" and "q = CHR 0x22 \<or> q = CHR 0x27"
  shows "scanToken s = scanString (currentPosition s) s"
proof -
  have "peek s = q"
    using assms(2) by (simp add: peek_def)
  moreover have "q \<noteq> CHR '' ''" "q \<noteq> CHR 0x09" "q \<noteq> CHR 0x0D" "q \<noteq> CHR 0x0A"
    "q \<noteq> CHR ''{''" "q \<noteq> CHR ''}''" "q \<noteq> CHR ''/''" "q \<noteq> CHR ''|''" "q \<noteq> CHR ''-''"
    using assms(3) by auto
  ultimately show ?thesis
    using assms(1,3) by (simp add: scanToken_def scanCommandPart_def Let_def)
qed



subsection \<open>Required tokens and unbalanced braces\<close>

lemma consume_mismatch:
  "ttype t \<noteq> ty \<Longrightarrow>
   consume ty message (t # ts) =
     Inl (ParseError (message @ '', got '' @ TokenType_name (ttype t)
                        @ '' at line '' @ show_nat (line (start (tloc t)))
                        @ '', column '' @ show_nat (column (start (tloc t))))
                     (tloc t))"
  by (simp add: consume_def parse_error_def)

lemma parseChildren_loop_stops:
  "parseChildren_loop children ts = Inr (cs, ts') \<Longrightarrow>
   \<exists>t r. ts' = t # r \<and> (ttype t = EOF \<or> ttype t = RBRACE)"
proof (induction children ts arbitrary: cs ts'
       rule: parseChildren_loop_parseCommand_parseBlock.induct(1)
         [where Q = "\<lambda>_. True" and R = "\<lambda>_. True"])
  case (1 children ts)
  from "1.prems" obtain t ts0 where ts: "ts = t # ts0"
    by (subst (asm) parseChildren_loop.simps) (cases ts, auto)
  show ?case
    using "1.prems" "1.IH" ts
    by (subst (asm) parseChildren_loop.simps) (auto split: if_splits sum.splits)
qed simp_all

text \<open>
  C6. Parsing \<open>/columns { /text "a"\<close>, where the block is never closed, fails with a
  \<open>ParseError\<close>; no document is returned. A required token that is missing makes
  \<open>consume\<close> raise a \<open>ParseError\<close> whose message is the caller's description of
  the expected token, then the kind of the token found, then the line and column of that
  token, and whose location is that token's. A block whose children end at the end of
  input, not at a closing brace, fails with "Expected }, got EOF".
\<close>

theorem unbalanced_brace_error:
  "parse ''/columns { /text \"a\"''
     = Inl (ParseError ''Expected }, got EOF at line 1, column 21''
              \<lparr>start = \<lparr>line = 1, column = 21, offset = 20\<rparr>,
               finish = \<lparr>line = 1, column = 21, offset = 20\<rparr>\<rparr>)
   \<and> (\<forall>ty message (t :: token) ts.
         ttype t \<noteq> ty \<longrightarrow>
         consume ty message (t # ts) =
           Inl (ParseError (message @ '', got '' @ TokenType_name (ttype t)
                              @ '' at line '' @ show_nat (line (start (tloc t)))
                              @ '', column '' @ show_nat (column (start (tloc t))))
                           (tloc t)))
   \<and> (\<forall>(lbrace :: token) ts children (t :: token) ts'.
         ttype lbrace = LBRACE \<and> parseChildren_loop [] ts = Inr (children, t # ts')
           \<and> ttype t \<noteq> RBRACE \<longrightarrow>
         ttype t = EOF
         \<and> parseBlock (lbrace # ts) =
             Inl (ParseError (''Expected }, got EOF at line '' @ show_nat (line (start (tloc t)))
                                @ '', column '' @ show_nat (column (start (tloc t))))
                             (tloc t)))"
proof (intro conjI allI impI)
  show "parse ''/columns { /text \"a\"''
     = Inl (ParseError ''Expected }, got EOF at line 1, column 21''
              \<lparr>start = \<lparr>line = 1, column = 21, offset = 20\<rparr>,
               finish = \<lparr>line = 1, column = 21, offset = 20\<rparr>\<rparr>)"
    by code_simp
next
  fix ty message and t :: token and ts
  assume "ttype t \<noteq> ty"
  then show "consume ty message (t # ts) =
           Inl (ParseError (message @ '', got '' @ TokenType_name (ttype t)
                              @ '' at line '' @ show_nat (line (start (tloc t)))
                              @ '', column '' @ show_nat (column (start (tloc t))))
                           (tloc t))"
    by (rule consume_mismatch)
next
  fix lbrace :: token and ts children and t :: token and ts'
  assume h: "ttype lbrace = LBRACE \<and> parseChildren_loop [] ts = Inr (children, t # ts')
           \<and> ttype t \<noteq> RBRACE"
  then show eof: "ttype t = EOF"
    using parseChildren_loop_stops [of "[]" ts children "t # ts'"] by auto
  show "parseBlock (lbrace # ts) =
             Inl (ParseError (''Expected }, got EOF at line '' @ show_nat (line (start (tloc t)))
                                @ '', column '' @ show_nat (column (start (tloc t))))
                             (tloc t))"
    using h eof consume_mismatch [of t RBRACE "''Expected }''" ts']
    by (subst parseBlock.simps) (simp add: consume_def TokenType_name_def)
qed

theorem unbalanced_brace_error_witness:
  "ttype \<lparr>ttype = EOF, tvalue = [],
           tloc = \<lparr>start = \<lparr>line = 1, column = 21, offset = 20\<rparr>,
                   finish = \<lparr>line = 1, column = 21, offset = 20\<rparr>\<rparr>\<rparr> \<noteq> RBRACE
   \<and> consume RBRACE ''Expected }''
        [\<lparr>ttype = EOF, tvalue = [],
           tloc = \<lparr>start = \<lparr>line = 1, column = 21, offset = 20\<rparr>,
                   finish = \<lparr>line = 1, column = 21, offset = 20\<rparr>\<rparr>\<rparr>]
     = Inl (ParseError ''Expected }, got EOF at line 1, column 21''
              \<lparr>start = \<lparr>line = 1, column = 21, offset = 20\<rparr>,
               finish = \<lparr>line = 1, column = 21, offset = 20\<rparr>\<rparr>)"
  using unbalanced_brace_error
    [THEN conjunct2, THEN conjunct1, rule_format,
     of "\<lparr>ttype = EOF, tvalue = [],
           tloc = \<lparr>start = \<lparr>line = 1, column = 21, offset = 20\<rparr>,
                   finish = \<lparr>line = 1, column = 21, offset = 20\<rparr>\<rparr>\<rparr>"
        RBRACE "''Expected }''" "[]"]
  by (simp add: TokenType_name_def show_nat.simps digit_char_def)

subsection \<open>Flag values\<close>

lemma parseArgs_loop_flag_value:
  assumes "ttype f = LONG_FLAG \<or> ttype f = SHORT_FLAG" and "ttype v = VALUE \<or> ttype v = STRING"
  shows "parseArgs_loop args (f # v # ts) =
         parseArgs_loop
           (args @ [FlagArg (tvalue f) (ttype f = SHORT_FLAG) (Some (tvalue v)) (tloc f)]) ts"
  using assms by (subst parseArgs_loop.simps) (auto simp: parseOptionalValue_def)

lemma parseArgs_loop_flag_boolean:
  assumes "ttype f = LONG_FLAG \<or> ttype f = SHORT_FLAG" and "\<not> (ttype v = VALUE \<or> ttype v = STRING)"
  shows "parseArgs_loop args (f # v # ts) =
         parseArgs_loop
           (args @ [FlagArg (tvalue f) (ttype f = SHORT_FLAG) None (tloc f)]) (v # ts)"
  using assms by (subst parseArgs_loop.simps) (auto simp: parseOptionalValue_def)

text \<open>
  C9. In the argument loop a \<open>LONG_FLAG\<close> or \<open>SHORT_FLAG\<close> token followed by a
  \<open>VALUE\<close> or a \<open>STRING\<close> token gives a flag whose value is the text of that token,
  and the loop goes on after both tokens; followed by a token of any other kind it
  gives a flag without value, and the loop goes on at that token. In
  \<open>/t --m "a\"b" -k v -q\<close> the flag \<open>m\<close> gets the unescaped string \<open>a"b\<close>, the flag
  \<open>k\<close> the value \<open>v\<close>, and \<open>q\<close> no value.
\<close>

theorem flag_value_string_or_value:
  "(\<forall>args (f :: token) (v :: token) ts.
      (ttype f = LONG_FLAG \<or> ttype f = SHORT_FLAG) \<and> (ttype v = VALUE \<or> ttype v = STRING) \<longrightarrow>
      parseOptionalValue (v # ts) = Inr (Some (tvalue v), ts)
      \<and> parseArgs_loop args (f # v # ts) =
          parseArgs_loop
            (args @ [FlagArg (tvalue f) (ttype f = SHORT_FLAG) (Some (tvalue v)) (tloc f)]) ts)
   \<and> (\<forall>args (f :: token) (v :: token) ts.
        (ttype f = LONG_FLAG \<or> ttype f = SHORT_FLAG) \<and> \<not> (ttype v = VALUE \<or> ttype v = STRING) \<longrightarrow>
        parseOptionalValue (v # ts) = Inr (None, v # ts)
        \<and> parseArgs_loop args (f # v # ts) =
            parseArgs_loop
              (args @ [FlagArg (tvalue f) (ttype f = SHORT_FLAG) None (tloc f)]) (v # ts))
   \<and> parse (''/t --m \"a'' @ [CHR 0x5C] @ ''\"b\" -k v -q'') =
       Inr (Document
         [Command ''t''
           [FlagArg ''m'' False (Some [CHR ''a'', CHR 0x22, CHR ''b''])
              \<lparr>start = \<lparr>line = 1, column = 4, offset = 3\<rparr>,
               finish = \<lparr>line = 1, column = 7, offset = 6\<rparr>\<rparr>,
            FlagArg ''k'' True (Some ''v'')
              \<lparr>start = \<lparr>line = 1, column = 15, offset = 14\<rparr>,
               finish = \<lparr>line = 1, column = 17, offset = 16\<rparr>\<rparr>,
            FlagArg ''q'' True None
              \<lparr>start = \<lparr>line = 1, column = 20, offset = 19\<rparr>,
               finish = \<lparr>line = 1, column = 22, offset = 21\<rparr>\<rparr>]
           None None
           \<lparr>start = \<lparr>line = 1, column = 1, offset = 0\<rparr>,
            finish = \<lparr>line = 1, column = 3, offset = 2\<rparr>\<rparr>])"
proof (intro conjI allI impI)
  show "parse (''/t --m \"a'' @ [CHR 0x5C] @ ''\"b\" -k v -q'') =
       Inr (Document
         [Command ''t''
           [FlagArg ''m'' False (Some [CHR ''a'', CHR 0x22, CHR ''b''])
              \<lparr>start = \<lparr>line = 1, column = 4, offset = 3\<rparr>,
               finish = \<lparr>line = 1, column = 7, offset = 6\<rparr>\<rparr>,
            FlagArg ''k'' True (Some ''v'')
              \<lparr>start = \<lparr>line = 1, column = 15, offset = 14\<rparr>,
               finish = \<lparr>line = 1, column = 17, offset = 16\<rparr>\<rparr>,
            FlagArg ''q'' True None
              \<lparr>start = \<lparr>line = 1, column = 20, offset = 19\<rparr>,
               finish = \<lparr>line = 1, column = 22, offset = 21\<rparr>\<rparr>]
           None None
           \<lparr>start = \<lparr>line = 1, column = 1, offset = 0\<rparr>,
            finish = \<lparr>line = 1, column = 3, offset = 2\<rparr>\<rparr>])"
    by code_simp
qed (simp_all add: parseArgs_loop_flag_value parseArgs_loop_flag_boolean parseOptionalValue_def)

theorem flag_value_string_or_value_witness:
  "parseArgs_loop []
     [\<lparr>ttype = LONG_FLAG, tvalue = ''m'', tloc = \<lparr>start = \<lparr>line = 1, column = 4, offset = 3\<rparr>,
                                               finish = \<lparr>line = 1, column = 7, offset = 6\<rparr>\<rparr>\<rparr>,
      \<lparr>ttype = STRING, tvalue = ''a b'', tloc = \<lparr>start = \<lparr>line = 1, column = 8, offset = 7\<rparr>,
                                              finish = \<lparr>line = 1, column = 13, offset = 12\<rparr>\<rparr>\<rparr>,
      \<lparr>ttype = EOF, tvalue = [], tloc = \<lparr>start = \<lparr>line = 1, column = 13, offset = 12\<rparr>,
                                       finish = \<lparr>line = 1, column = 13, offset = 12\<rparr>\<rparr>\<rparr>]
   = Inr ([FlagArg ''m'' False (Some ''a b'')
             \<lparr>start = \<lparr>line = 1, column = 4, offset = 3\<rparr>,
              finish = \<lparr>line = 1, column = 7, offset = 6\<rparr>\<rparr>],
          [\<lparr>ttype = EOF, tvalue = [], tloc = \<lparr>start = \<lparr>line = 1, column = 13, offset = 12\<rparr>,
                                            finish = \<lparr>line = 1, column = 13, offset = 12\<rparr>\<rparr>\<rparr>])"
  using flag_value_string_or_value
    [THEN conjunct1, rule_format,
     where args = "[]"
       and f = "\<lparr>ttype = LONG_FLAG, tvalue = ''m'',
                  tloc = \<lparr>start = \<lparr>line = 1, column = 4, offset = 3\<rparr>,
                          finish = \<lparr>line = 1, column = 7, offset = 6\<rparr>\<rparr>\<rparr>"
       and v = "\<lparr>ttype = STRING, tvalue = ''a b'',
                  tloc = \<lparr>start = \<lparr>line = 1, column = 8, offset = 7\<rparr>,
                          finish = \<lparr>line = 1, column = 13, offset = 12\<rparr>\<rparr>\<rparr>"
       and ts = "[\<lparr>ttype = EOF, tvalue = [],
                   tloc = \<lparr>start = \<lparr>line = 1, column = 13, offset = 12\<rparr>,
                           finish = \<lparr>line = 1, column = 13, offset = 12\<rparr>\<rparr>\<rparr>]"]
  by (simp add: parseArgs_loop.simps)

subsection \<open>Pipe chains\<close>

text \<open>
  One pipe segment of the input, \<open>| name arg ...\<close>: the \<open>PIPE\<close> token, the \<open>VALUE\<close>
  token of the name and the argument tokens, each a \<open>VALUE\<close> or a \<open>STRING\<close>; and the
  \<open>Pipe\<close> node that stands for the segment.
\<close>

type_synonym segment = "token \<times> token \<times> token list"

fun segment_tokens :: "segment \<Rightarrow> token list" where
  "segment_tokens (bar, n, as) = bar # n # as"

fun segment_pipe :: "segment \<Rightarrow> pipe" where
  "segment_pipe (bar, n, as) =
     Pipe (tvalue n) (map (\<lambda>a. PositionalArg (tvalue a) (tloc a)) as) (tloc n)"

fun well_formed_segment :: "segment \<Rightarrow> bool" where
  "well_formed_segment (bar, n, as) =
     (ttype bar = PIPE \<and> ttype n = VALUE
      \<and> list_all (\<lambda>a. ttype a = VALUE \<or> ttype a = STRING) as)"

lemma parsePipeArgs_loop_values:
  assumes "list_all (\<lambda>a. ttype a = VALUE \<or> ttype a = STRING) as"
    and "ttype t \<noteq> VALUE" and "ttype t \<noteq> STRING"
  shows "parsePipeArgs_loop args (as @ t # ts) =
         Inr (args @ map (\<lambda>a. PositionalArg (tvalue a) (tloc a)) as, t # ts)"
  using assms
proof (induction as arbitrary: args)
  case Nil
  then show ?case
    by (subst parsePipeArgs_loop.simps) auto
next
  case (Cons a as)
  then show ?case
    by (subst parsePipeArgs_loop.simps) auto
qed

lemma parsePipes_loop_segments:
  assumes "list_all well_formed_segment segs"
    and "ttype t \<noteq> PIPE" and "ttype t \<noteq> VALUE" and "ttype t \<noteq> STRING"
  shows "parsePipes_loop pipes (concat (map segment_tokens segs) @ t # ts) =
         Inr (pipes @ map segment_pipe segs, t # ts)"
  using assms(1)
proof (induction segs arbitrary: pipes)
  case Nil
  then show ?case
    using assms(2) by (subst parsePipes_loop.simps) simp
next
  case (Cons seg segs)
  obtain bar n as where seg: "seg = (bar, n, as)"
    by (cases seg)
  have wf: "ttype bar = PIPE" "ttype n = VALUE"
    "list_all (\<lambda>a. ttype a = VALUE \<or> ttype a = STRING) as"
    using Cons.prems seg by simp_all
  define tail where "tail = concat (map segment_tokens segs) @ t # ts"
  have "\<exists>u us. tail = u # us \<and> ttype u \<noteq> VALUE \<and> ttype u \<noteq> STRING"
  proof (cases segs)
    case Nil
    then show ?thesis
      using assms(3,4) by (simp add: tail_def)
  next
    case (Cons seg' segs')
    obtain bar' n' as' where "seg' = (bar', n', as')"
      by (cases seg')
    then show ?thesis
      using Cons Cons.prems by (simp add: tail_def)
  qed
  then obtain u us where tail: "tail = u # us" and u: "ttype u \<noteq> VALUE" "ttype u \<noteq> STRING"
    by blast
  have args: "parsePipeArgs (as @ tail) =
              Inr (map (\<lambda>a. PositionalArg (tvalue a) (tloc a)) as, tail)"
    using parsePipeArgs_loop_values [OF wf(3) u, of "[]" us] tail
    by (simp add: parsePipeArgs_def)
  have "parsePipes_loop pipes (bar # n # as @ tail) =
        parsePipes_loop (pipes @ [segment_pipe seg]) tail"
    using wf(1,2) args seg
    by (subst parsePipes_loop.simps) (simp add: consume_def)
  also have "\<dots> = Inr ((pipes @ [segment_pipe seg]) @ map segment_pipe segs, t # ts)"
    unfolding tail_def using Cons.prems by (intro Cons.IH) simp
  finally show ?case
    using seg by (simp add: tail_def)
qed

subsection \<open>Blocks and pipes exclude each other\<close>

text \<open>All \<open>Command\<close> nodes of a tree, at any depth.\<close>

fun commands_of :: "node \<Rightarrow> node list"
  and commands_of_block :: "block \<Rightarrow> node list" where
  "commands_of (Command n a b p l) =
     Command n a b p l # (case b of None \<Rightarrow> [] | Some bl \<Rightarrow> commands_of_block bl)"
| "commands_of (Content v l) = []"
| "commands_of_block (Block cs l) = concat (map commands_of cs)"

definition commands_of_document :: "document \<Rightarrow> node list" where
  "commands_of_document doc = concat (map commands_of (doc_children doc))"

lemma parseCommand_pipes_exclusive:
  "parseCommand_pipes block ts = Inr (ps, ts') \<Longrightarrow> block \<noteq> None \<Longrightarrow> ps = None"
  by (auto simp: parseCommand_pipes_def)

lemma parser_exclusive:
  "\<forall>cs ts'. parseChildren_loop children ts = Inr (cs, ts') \<longrightarrow>
     (\<forall>c \<in> set (concat (map commands_of children)). cmd_block c \<noteq> None \<longrightarrow> cmd_pipes c = None) \<longrightarrow>
     (\<forall>c \<in> set (concat (map commands_of cs)). cmd_block c \<noteq> None \<longrightarrow> cmd_pipes c = None)"
  "\<forall>n ts'. parseCommand ts1 = Inr (n, ts') \<longrightarrow>
     (\<forall>c \<in> set (commands_of n). cmd_block c \<noteq> None \<longrightarrow> cmd_pipes c = None)"
  "\<forall>b ts'. parseBlock ts2 = Inr (b, ts') \<longrightarrow>
     (\<forall>c \<in> set (commands_of_block b). cmd_block c \<noteq> None \<longrightarrow> cmd_pipes c = None)"
proof (induct children ts and ts1 and ts2 rule: parseChildren_loop_parseCommand_parseBlock.induct)
  case (1 children ts)
  show ?case
  proof (intro allI impI)
    fix cs ts'
    assume r: "parseChildren_loop children ts = Inr (cs, ts')"
      and inv: "\<forall>c \<in> set (concat (map commands_of children)). cmd_block c \<noteq> None \<longrightarrow> cmd_pipes c = None"
    note r' = r [unfolded parseChildren_loop.simps [of children ts]]
    from r' obtain t ts0 where ts: "ts = t # ts0"
      by (cases ts) auto
    consider (stop) "ttype t = EOF \<or> ttype t = RBRACE"
      | (cmd) "\<not> (ttype t = EOF \<or> ttype t = RBRACE)" "ttype t = COMMAND"
      | (cont) "\<not> (ttype t = EOF \<or> ttype t = RBRACE)" "ttype t \<noteq> COMMAND" "ttype t = CONTENT"
      | (lbrace) "\<not> (ttype t = EOF \<or> ttype t = RBRACE)" "ttype t \<noteq> COMMAND"
          "ttype t \<noteq> CONTENT" "ttype t = LBRACE"
      | (skip) "\<not> (ttype t = EOF \<or> ttype t = RBRACE)" "ttype t \<noteq> COMMAND"
          "ttype t \<noteq> CONTENT" "ttype t \<noteq> LBRACE"
      by blast
    then show "\<forall>c \<in> set (concat (map commands_of cs)). cmd_block c \<noteq> None \<longrightarrow> cmd_pipes c = None"
    proof cases
      case stop
      with r' ts inv show ?thesis by auto
    next
      case cmd
      with r' ts obtain n ts1 where pc: "parseCommand ts = Inr (n, ts1)"
        and l: "parseChildren_loop (children @ [n]) ts1 = Inr (cs, ts')"
        by (auto split: sum.splits)
      have "\<forall>c \<in> set (commands_of n). cmd_block c \<noteq> None \<longrightarrow> cmd_pipes c = None"
        using "1.hyps"(1) [OF ts cmd] pc by blast
      with inv have "\<forall>c \<in> set (concat (map commands_of (children @ [n]))).
                       cmd_block c \<noteq> None \<longrightarrow> cmd_pipes c = None"
        by auto
      then show ?thesis
        using "1.hyps"(2) [OF ts cmd pc refl] l by blast
    next
      case cont
      with r' ts obtain n ts1 where pc: "parseContent ts = Inr (n, ts1)"
        and l: "parseChildren_loop (children @ [n]) ts1 = Inr (cs, ts')"
        by (auto split: sum.splits)
      have "commands_of n = []"
        using pc by (auto simp: parseContent_def split: sum.splits)
      with inv have "\<forall>c \<in> set (concat (map commands_of (children @ [n]))).
                       cmd_block c \<noteq> None \<longrightarrow> cmd_pipes c = None"
        by auto
      then show ?thesis
        using "1.hyps"(3) [OF ts cont pc refl] l by blast
    next
      case lbrace
      with r' ts show ?thesis by auto
    next
      case skip
      with r' ts have l: "parseChildren_loop children ts0 = Inr (cs, ts')"
        by auto
      then show ?thesis
        using "1.hyps"(4) [OF ts skip] inv by blast
    qed
  qed
next
  case (2 ts)
  show ?case
  proof (intro allI impI)
    fix n ts'
    assume r: "parseCommand ts = Inr (n, ts')"
    note r' = r [unfolded parseCommand.simps [of ts]]
    from r' obtain commandToken ts1 where
      c1: "consume COMMAND ''Expected command name'' ts = Inr (commandToken, ts1)"
      and r1: "(case parseArgs ts1 of
             Inl e \<Rightarrow> Inl e
           | Inr (args, ts2) \<Rightarrow>
               (case (case ts2 of
                        [] \<Rightarrow> Inl TypeError
                      | t # _ \<Rightarrow>
                          if ttype t = LBRACE then
                            (case parseBlock ts2 of
                               Inl e \<Rightarrow> Inl e
                             | Inr (b, ts3) \<Rightarrow> Inr (Some b, ts3))
                          else Inr (None, ts2)) of
                  Inl e \<Rightarrow> Inl e
                | Inr (block, ts3) \<Rightarrow>
                    (case parseCommand_pipes block ts3 of
                       Inl e \<Rightarrow> Inl e
                     | Inr (pipes, ts4) \<Rightarrow>
                         Inr (Command (tvalue commandToken) args block pipes
                                (tloc commandToken), ts4)))) = Inr (n, ts')"
      by (rule bind2E)
    from r1 obtain args ts2 where c2: "parseArgs ts1 = Inr (args, ts2)"
      and r2: "(case (case ts2 of
                        [] \<Rightarrow> Inl TypeError
                      | t # _ \<Rightarrow>
                          if ttype t = LBRACE then
                            (case parseBlock ts2 of
                               Inl e \<Rightarrow> Inl e
                             | Inr (b, ts3) \<Rightarrow> Inr (Some b, ts3))
                          else Inr (None, ts2)) of
                  Inl e \<Rightarrow> Inl e
                | Inr (block, ts3) \<Rightarrow>
                    (case parseCommand_pipes block ts3 of
                       Inl e \<Rightarrow> Inl e
                     | Inr (pipes, ts4) \<Rightarrow>
                         Inr (Command (tvalue commandToken) args block pipes
                                (tloc commandToken), ts4))) = Inr (n, ts')"
      by (rule bind2E)
    from r2 obtain block ts3 where
      c3: "(case ts2 of
              [] \<Rightarrow> Inl TypeError
            | t # _ \<Rightarrow>
                if ttype t = LBRACE then
                  (case parseBlock ts2 of
                     Inl e \<Rightarrow> Inl e
                   | Inr (b, ts3) \<Rightarrow> Inr (Some b, ts3))
                else Inr (None, ts2)) = Inr (block, ts3)"
      and r3: "(case parseCommand_pipes block ts3 of
                       Inl e \<Rightarrow> Inl e
                     | Inr (pipes, ts4) \<Rightarrow>
                         Inr (Command (tvalue commandToken) args block pipes
                                (tloc commandToken), ts4)) = Inr (n, ts')"
      by (rule bind2E)
    from r3 obtain pipes where c4: "parseCommand_pipes block ts3 = Inr (pipes, ts')"
      and n: "n = Command (tvalue commandToken) args block pipes (tloc commandToken)"
      by (auto split: sum.splits)
    from c3 obtain t2 ts2' where ts2: "ts2 = t2 # ts2'"
      by (cases ts2) auto
    have top: "block \<noteq> None \<longrightarrow> pipes = None"
      using parseCommand_pipes_exclusive [OF c4] by blast
    have inner: "\<forall>c \<in> set (case block of None \<Rightarrow> [] | Some bl \<Rightarrow> commands_of_block bl).
                   cmd_block c \<noteq> None \<longrightarrow> cmd_pipes c = None"
    proof (cases "ttype t2 = LBRACE")
      case True
      with c3 ts2 obtain b where "parseBlock ts2 = Inr (b, ts3)" and "block = Some b"
        by (auto split: sum.splits)
      then show ?thesis
        using "2.hyps" [OF c1 refl c2 refl ts2 True] by auto
    next
      case False
      with c3 ts2 show ?thesis by auto
    qed
    show "\<forall>c \<in> set (commands_of n). cmd_block c \<noteq> None \<longrightarrow> cmd_pipes c = None"
      using top inner by (simp add: n)
  qed
next
  case (3 ts)
  show ?case
  proof (intro allI impI)
    fix b ts'
    assume r: "parseBlock ts = Inr (b, ts')"
    note r' = r [unfolded parseBlock.simps [of ts]]
    from r' obtain lbrace ts1 where c1: "consume LBRACE ''Expected {'' ts = Inr (lbrace, ts1)"
      by (auto split: sum.splits)
    from r' c1 obtain children ts2 where c2: "parseChildren_loop [] ts1 = Inr (children, ts2)"
      by (auto split: sum.splits)
    from r' c1 c2 obtain l where b: "b = Block children l"
      by (auto split: sum.splits)
    have "\<forall>c \<in> set (concat (map commands_of children)). cmd_block c \<noteq> None \<longrightarrow> cmd_pipes c = None"
      using "3.hyps" [OF c1 refl] c2 by simp
    then show "\<forall>c \<in> set (commands_of_block b). cmd_block c \<noteq> None \<longrightarrow> cmd_pipes c = None"
      by (simp add: b)
  qed
qed

text \<open>
  C2. In the document of every successful parse, every \<open>Command\<close> node, at any depth,
  that has a block has no pipes.
\<close>

theorem block_excludes_pipes:
  assumes "parse source = Inr doc" and "c \<in> set (commands_of_document doc)"
    and "cmd_block c \<noteq> None"
  shows "cmd_pipes c = None"
proof -
  from assms(1) obtain toks children ts' where
    "parseChildren_loop [] toks = Inr (children, ts')" and "doc = Document children"
    by (auto simp: parse_def parseChildren_def split: sum.splits)
  then show ?thesis
    using parser_exclusive(1) [of "[]" toks] assms(2,3)
    by (auto simp: commands_of_document_def)
qed

theorem block_excludes_pipes_witness:
  "parse ''/a {}'' =
     Inr (Document
       [Command ''a'' []
          (Some (Block [] \<lparr>start = \<lparr>line = 1, column = 4, offset = 3\<rparr>,
                           finish = \<lparr>line = 1, column = 6, offset = 5\<rparr>\<rparr>))
          None
          \<lparr>start = \<lparr>line = 1, column = 1, offset = 0\<rparr>,
           finish = \<lparr>line = 1, column = 3, offset = 2\<rparr>\<rparr>])
   \<and> cmd_pipes
        (Command ''a'' []
          (Some (Block [] \<lparr>start = \<lparr>line = 1, column = 4, offset = 3\<rparr>,
                           finish = \<lparr>line = 1, column = 6, offset = 5\<rparr>\<rparr>))
          None
          \<lparr>start = \<lparr>line = 1, column = 1, offset = 0\<rparr>,
           finish = \<lparr>line = 1, column = 3, offset = 2\<rparr>\<rparr>) = None"
proof -
  let ?c = "Command ''a'' []
          (Some (Block [] \<lparr>start = \<lparr>line = 1, column = 4, offset = 3\<rparr>,
                           finish = \<lparr>line = 1, column = 6, offset = 5\<rparr>\<rparr>))
          None
          \<lparr>start = \<lparr>line = 1, column = 1, offset = 0\<rparr>,
           finish = \<lparr>line = 1, column = 3, offset = 2\<rparr>\<rparr>"
  have p: "parse ''/a {}'' = Inr (Document [?c])"
    by code_simp
  have m: "?c \<in> set (commands_of_document (Document [?c]))"
    by (simp add: commands_of_document_def)
  have b: "cmd_block ?c \<noteq> None"
    by simp
  show ?thesis
    using p block_excludes_pipes [OF p m b] by simp
qed

subsection \<open>Raw blocks\<close>

text \<open>
  The brace depth after a piece of raw text read at depth \<open>d\<close>; \<open>None\<close> when a closing
  brace inside the text brings the depth to zero, that is, when the block is closed
  inside the text.
\<close>

fun raw_depth :: "nat \<Rightarrow> string \<Rightarrow> nat option" where
  "raw_depth d [] = Some d"
| "raw_depth d (c # cs) =
     (if c = CHR ''{'' then raw_depth (d + 1) cs
      else if c = CHR ''}'' then (if d \<le> 1 then None else raw_depth (d - 1) cs)
      else raw_depth d cs)"

text \<open>The scanner after the characters \<open>cs\<close> have been read, one \<open>advance\<close> each.\<close>

fun advance_over :: "string \<Rightarrow> tokenizer \<Rightarrow> tokenizer" where
  "advance_over [] s = s"
| "advance_over (c # cs) s =
     advance_over cs (if c = CHR 0x0A then newline (advance s) else advance s)"

lemma advance_over_fields [simp]:
  "rest (advance_over cs s) = drop (length cs) (rest s)"
  "tokens (advance_over cs s) = tokens s"
  "pos (advance_over cs s) = pos s + length cs"
  "canStartCommand (advance_over cs s) = canStartCommand s"
  "inCommandMode (advance_over cs s) = inCommandMode s"
  "currentCommand (advance_over cs s) = currentCommand s"
  by (induction cs arbitrary: s; simp add: advance_def newline_def drop_Suc tl_drop)+

lemma scanRawBlock_loop_body:
  assumes "raw_depth d body = Some d'" and "0 < d" and "rest s = body @ r"
  shows "scanRawBlock_loop d content s = scanRawBlock_loop d' (content @ body) (advance_over body s)
         \<and> 0 < d'"
  using assms
proof (induction body arbitrary: d content s)
  case Nil
  then show ?case by simp
next
  case (Cons c cs)
  have ne: "\<not> isAtEnd s" "peek s = c"
    using Cons.prems(3) by (simp_all add: isAtEnd_def peek_def)
  have r: "rest (advance s) = cs @ r" "rest (newline (advance s)) = cs @ r"
    using Cons.prems(3) by simp_all
  show ?case
  proof (cases "c = CHR ''{''")
    case True
    then have "raw_depth (d + 1) cs = Some d'"
      using Cons.prems(1) by simp
    from Cons.IH [OF this _ r(1), of "content @ [c]"] show ?thesis
      using True ne Cons.prems(2) by (subst scanRawBlock_loop.simps) (simp add: Let_def)
  next
    case False
    note notopen = this
    show ?thesis
    proof (cases "c = CHR ''}''")
      case True
      then have d: "1 < d" "raw_depth (d - 1) cs = Some d'"
        using Cons.prems(1) by (simp_all split: if_splits)
      from Cons.IH [OF d(2) _ r(1), of "content @ [c]"] show ?thesis
        using True ne d(1) by (subst scanRawBlock_loop.simps) (simp add: Let_def)
    next
      case False
      then have d: "raw_depth d cs = Some d'"
        using Cons.prems(1) notopen by simp
      show ?thesis
      proof (cases "c = CHR 0x0A")
        case True
        from Cons.IH [OF d Cons.prems(2) r(2), of "content @ [c]"] show ?thesis
          using True ne Cons.prems(2) by (subst scanRawBlock_loop.simps) (simp add: Let_def)
      next
        case nl: False
        from Cons.IH [OF d Cons.prems(2) r(1), of "content @ [c]"] show ?thesis
          using nl False notopen ne Cons.prems(2)
          by (subst scanRawBlock_loop.simps) (simp add: Let_def)
      qed
    qed
  qed
qed

lemma scanRawBlock_loop_closed:
  assumes "raw_depth 1 body = Some 1" and "rest s = body @ CHR ''}'' # after"
  shows "scanRawBlock_loop 1 [] s = (body, advance_over body s)"
proof -
  have "scanRawBlock_loop 1 [] s = scanRawBlock_loop 1 body (advance_over body s)"
    using scanRawBlock_loop_body [OF assms(1) _ assms(2), of "[]"] by simp
  also have "\<dots> = scanRawBlock_loop 0 body (advance_over body s)"
    using assms(2) by (subst scanRawBlock_loop.simps) (simp add: isAtEnd_def peek_def Let_def)
  also have "\<dots> = (body, advance_over body s)"
    by (subst scanRawBlock_loop.simps) simp
  finally show ?thesis .
qed

lemma scanRawBlock_loop_unclosed:
  assumes "raw_depth 1 body = Some d" and "rest s = body"
  shows "scanRawBlock_loop 1 [] s = (body, advance_over body s)"
proof -
  have "scanRawBlock_loop 1 [] s = scanRawBlock_loop d body (advance_over body s)"
    using scanRawBlock_loop_body [OF assms(1), of s "[]" "[]"] assms(2) by simp
  also have "\<dots> = (body, advance_over body s)"
    using assms(2) by (subst scanRawBlock_loop.simps) (simp add: isAtEnd_def)
  finally show ?thesis .
qed


lemma scanToken_raw_block:
  assumes "currentCommand s \<in> RAW_BLOCK_COMMANDS" and "rest s = CHR ''{'' # body @ r"
    and "scanRawBlock_loop 1 [] (addToken LBRACE ''{'' (currentPosition s) (advance s))
           = (body, s2)"
    and "rest s2 = r" and "tokens s2 = tokens s @ [lb]" and "ttype lb = LBRACE" and "tvalue lb = ''{''"
  shows "\<exists>s'. scanToken s = Inr s'
           \<and> token_kinds (tokens s') =
               token_kinds (tokens s) @ (LBRACE, ''{'')
                 # (if trimBlankLines body = [] then [] else [(CONTENT, trimBlankLines body)])
                 @ (if r \<noteq> [] \<and> hd r = CHR ''}'' then [(RBRACE, ''}'')] else [])
           \<and> rest s' = (if r \<noteq> [] \<and> hd r = CHR ''}'' then tl r else r)
           \<and> canStartCommand s' \<and> \<not> inCommandMode s' \<and> currentCommand s' = []"
proof -
  have p: "peek s = CHR ''{''"
    using assms(2) by (simp add: peek_def)
  have st: "scanToken s = Inr (scanRawBlock (currentPosition s) s)"
    using assms(1) p by (simp add: scanToken_def Let_def)
  have pk: "peek s2 = CHR ''}'' \<and> \<not> isAtEnd s2 \<longleftrightarrow> r \<noteq> [] \<and> hd r = CHR ''}''"
    using assms(4) by (cases r) (auto simp: peek_def isAtEnd_def)
  show ?thesis
    unfolding st
    using assms(3-7) pk
    by (intro exI [of _ "scanRawBlock (currentPosition s) s"])
       (auto simp: scanRawBlock_def Let_def token_kinds_def addToken_def isAtEnd_def peek_def
          advance_def)
qed


lemma tokenize_loop_step:
  "\<not> isAtEnd s \<Longrightarrow> scanToken s = Inr s' \<Longrightarrow> tokenize_loop s = tokenize_loop s'"
  by (subst tokenize_loop.simps) simp

lemma tokenize_loop_end: "rest s = [] \<Longrightarrow> tokenize_loop s = Inr s"
  by (subst tokenize_loop.simps) (simp add: isAtEnd_def)

text \<open>The scanner after \<open>/name\<close> and one space, for a raw-block command.\<close>

lemma tokenize_loop_raw_command:
  assumes "name \<in> RAW_BLOCK_COMMANDS"
  shows "\<exists>s. tokenize_loop (new_tokenizer (''/'' @ name @ '' {'' @ tail)) = tokenize_loop s
           \<and> rest s = CHR ''{'' # tail \<and> token_kinds (tokens s) = [(COMMAND, name)]
           \<and> currentCommand s = name"
proof -
  define s0 where "s0 = new_tokenizer (''/'' @ name @ '' {'' @ tail)"
  define s1 where "s1 = (addToken COMMAND name (currentPosition s0)
                           (snd (scanWhile isIdentifierChar [] (advance s0))))
                        \<lparr>canStartCommand := False, inCommandMode := True, currentCommand := name\<rparr>"
  have tw: "takeWhile isIdentifierChar (name @ '' {'' @ tail) = name"
    "dropWhile isIdentifierChar (name @ '' {'' @ tail) = '' {'' @ tail"
    using assms by (auto simp: RAW_BLOCK_COMMANDS_def isIdentifierChar_def)
  have 1: "scanToken s0 = Inr s1"
    using assms tw
    by (auto simp: s0_def s1_def new_tokenizer_def scanToken_def scanCommand_def Let_def
          peek_def scanWhile_eq RAW_BLOCK_COMMANDS_def)
  have r1: "rest s1 = '' {'' @ tail" "inCommandMode s1" "currentCommand s1 = name"
    "token_kinds (tokens s1) = [(COMMAND, name)]"
    using tw by (simp_all add: s1_def s0_def new_tokenizer_def scanWhile_eq token_kinds_def
                   addToken_def advance_def)
  have 2: "scanToken s1 = Inr (advance s1)"
    using r1 by (simp add: scanToken_def peek_def Let_def)
  have "tokenize_loop s0 = tokenize_loop s1"
    using 1 by (intro tokenize_loop_step) (simp_all add: s0_def new_tokenizer_def isAtEnd_def)
  also have "\<dots> = tokenize_loop (advance s1)"
    using 2 r1 by (intro tokenize_loop_step) (simp_all add: isAtEnd_def)
  finally show ?thesis
    using r1 by (intro exI [of _ "advance s1"]) (simp add: s0_def advance_def)
qed


lemma tokenize_raw_block:
  assumes "name \<in> RAW_BLOCK_COMMANDS"
    and "raw_depth 1 body = Some d" and "closing = [] \<or> (closing = ''}'' \<and> d = 1)"
  shows "\<exists>toks. tokenize (''/'' @ name @ '' {'' @ body @ closing) = Inr toks
           \<and> token_kinds toks =
               (COMMAND, name) # (LBRACE, ''{'')
                 # (if trimBlankLines body = [] then [] else [(CONTENT, trimBlankLines body)])
                 @ (if closing = [] then [] else [(RBRACE, ''}'')]) @ [(EOF, [])]"
proof -
  obtain s where s: "tokenize_loop (new_tokenizer (''/'' @ name @ '' {'' @ body @ closing))
                       = tokenize_loop s"
    and rs: "rest s = CHR ''{'' # body @ closing" and ts: "token_kinds (tokens s) = [(COMMAND, name)]"
    and cc: "currentCommand s = name"
    using tokenize_loop_raw_command [OF assms(1), of "body @ closing"] by blast
  let ?s1 = "addToken LBRACE ''{'' (currentPosition s) (advance s)"
  have r1: "rest ?s1 = body @ closing"
    using rs by simp
  have loop: "scanRawBlock_loop 1 [] ?s1 = (body, advance_over body ?s1)"
  proof (cases "closing = []")
    case True
    then show ?thesis
      using scanRawBlock_loop_unclosed [OF assms(2), of ?s1] r1 by simp
  next
    case False
    then have "closing = ''}''" "raw_depth 1 body = Some 1"
      using assms(2,3) by auto
    then show ?thesis
      using scanRawBlock_loop_closed [of body ?s1 "[]"] r1 by simp
  qed
  have tk1: "tokens (advance_over body ?s1) = tokens s @
          [\<lparr>ttype = LBRACE, tvalue = ''{'',
            tloc = \<lparr>start = currentPosition s, finish = currentPosition (advance s)\<rparr>\<rparr>]"
    by (simp add: addToken_def advance_def)
  have "currentCommand s \<in> RAW_BLOCK_COMMANDS" and "rest (advance_over body ?s1) = closing"
    using assms(1) cc r1 by simp_all
  from scanToken_raw_block [OF this(1) rs loop this(2) tk1]
  obtain s' where st: "scanToken s = Inr s'"
    and tk: "token_kinds (tokens s') =
               token_kinds (tokens s) @ (LBRACE, ''{'')
                 # (if trimBlankLines body = [] then [] else [(CONTENT, trimBlankLines body)])
                 @ (if closing \<noteq> [] \<and> hd closing = CHR ''}'' then [(RBRACE, ''}'')] else [])"
    and rs': "rest s' = (if closing \<noteq> [] \<and> hd closing = CHR ''}'' then tl closing else closing)"
    by auto
  have e: "rest s' = []"
    using rs' assms(3) by auto
  have "tokenize_loop s = tokenize_loop s'"
    using st rs by (intro tokenize_loop_step) (simp_all add: isAtEnd_def)
  then have "tokenize_loop (new_tokenizer (''/'' @ name @ '' {'' @ body @ closing)) = Inr s'"
    using s tokenize_loop_end [OF e] by simp
  then show ?thesis
    using tk ts assms(3) by (auto simp: tokenize_def token_kinds_def)
qed


lemma token_kinds_Cons:
  "token_kinds ts = k # ks \<longleftrightarrow>
     (\<exists>t ts'. ts = t # ts' \<and> (ttype t, tvalue t) = k \<and> token_kinds ts' = ks)"
  by (cases ts) (auto simp: token_kinds_def)

lemma token_kinds_Nil [simp]: "token_kinds ts = [] \<longleftrightarrow> ts = []"
  by (simp add: token_kinds_def)

lemma parseChildren_loop_contents:
  assumes "list_all (\<lambda>t. ttype t = CONTENT) cts" and "ttype t = EOF \<or> ttype t = RBRACE"
  shows "parseChildren_loop children (cts @ t # ts) =
         Inr (children @ map (\<lambda>t. Content (tvalue t) (tloc t)) cts, t # ts)"
  using assms(1)
proof (induction cts arbitrary: children)
  case Nil
  then show ?case
    using assms(2) by (subst parseChildren_loop.simps) auto
next
  case (Cons c cts)
  then show ?case
    by (subst parseChildren_loop.simps) (simp add: parseContent_def consume_def)
qed

text \<open>
  The parser on the tokens of a raw-block command: the command token, the opening brace,
  the content tokens, and then either the closing brace or the end of input.
\<close>

lemma parseCommand_raw_closed:
  assumes "ttype tc = COMMAND" and "ttype lb = LBRACE"
    and "list_all (\<lambda>t. ttype t = CONTENT) cts" and "ttype tr = RBRACE"
  shows "parseCommand (tc # lb # cts @ tr # ts) =
         Inr (Command (tvalue tc) []
                (Some (Block (map (\<lambda>t. Content (tvalue t) (tloc t)) cts)
                         \<lparr>start = start (tloc lb), finish = finish (tloc tr)\<rparr>))
                None (tloc tc), ts)"
proof -
  have b: "parseBlock (lb # cts @ tr # ts) =
           Inr (Block (map (\<lambda>t. Content (tvalue t) (tloc t)) cts)
                  \<lparr>start = start (tloc lb), finish = finish (tloc tr)\<rparr>, ts)"
    using assms(2,4) parseChildren_loop_contents [OF assms(3), of tr "[]" ts]
    by (subst parseBlock.simps) (simp add: consume_def)
  have a: "parseArgs (lb # cts @ tr # ts) = Inr ([], lb # cts @ tr # ts)"
    using assms(2) by (simp add: parseArgs_def parseArgs_loop.simps)
  show ?thesis
    using assms(1,2) a b
    by (subst parseCommand.simps) (simp add: consume_def parseCommand_pipes_def)
qed

lemma parseCommand_raw_unclosed:
  assumes "ttype tc = COMMAND" and "ttype lb = LBRACE"
    and "list_all (\<lambda>t. ttype t = CONTENT) cts" and "ttype te = EOF"
  shows "parseCommand (tc # lb # cts @ te # ts) =
         Inl (ParseError (''Expected }, got EOF at line '' @ show_nat (line (start (tloc te)))
                            @ '', column '' @ show_nat (column (start (tloc te))))
                (tloc te))"
proof -
  have b: "parseBlock (lb # cts @ te # ts) =
         Inl (ParseError (''Expected }, got EOF at line '' @ show_nat (line (start (tloc te)))
                            @ '', column '' @ show_nat (column (start (tloc te))))
                (tloc te))"
    using assms(2,4) parseChildren_loop_contents [OF assms(3), of te "[]" ts]
    by (subst parseBlock.simps)
       (simp add: consume_def parse_error_def TokenType_name_def)
  have a: "parseArgs (lb # cts @ te # ts) = Inr ([], lb # cts @ te # ts)"
    using assms(2) by (simp add: parseArgs_def parseArgs_loop.simps)
  show ?thesis
    using assms(1,2) a b
    by (subst parseCommand.simps) (simp add: consume_def)
qed


lemma kinds_content_tokens:
  assumes "token_kinds cts = (if v = [] then [] else [(CONTENT, v)])"
  shows "list_all (\<lambda>t. ttype t = CONTENT) cts"
    and "map (\<lambda>t. Content (tvalue t) (tloc t)) cts =
           (if v = [] then [] else [Content v (tloc (hd cts))])"
  using assms by (auto simp: token_kinds_Cons split: if_splits)

lemma parse_raw_block_closed:
  assumes "name \<in> RAW_BLOCK_COMMANDS" and "raw_depth 1 body = Some 1"
  shows "\<exists>l1 l2 l3. parse (''/'' @ name @ '' {'' @ body @ ''}'') =
           Inr (Document
             [Command name []
                (Some (Block (if trimBlankLines body = [] then []
                              else [Content (trimBlankLines body) l3]) l2))
                None l1])"
proof -
  obtain toks where t: "tokenize (''/'' @ name @ '' {'' @ body @ ''}'') = Inr toks"
    and k: "token_kinds toks =
               (COMMAND, name) # (LBRACE, ''{'')
                 # (if trimBlankLines body = [] then [] else [(CONTENT, trimBlankLines body)])
                 @ [(RBRACE, ''}''), (EOF, [])]"
    using tokenize_raw_block [OF assms(1,2), of "''}''"] by auto
  from k obtain tc lb rest1 where toks: "toks = tc # lb # rest1"
    and tc: "ttype tc = COMMAND" "tvalue tc = name" and lb: "ttype lb = LBRACE"
    and k1: "token_kinds rest1 =
               (if trimBlankLines body = [] then [] else [(CONTENT, trimBlankLines body)])
                 @ [(RBRACE, ''}''), (EOF, [])]"
    by (auto simp: token_kinds_Cons)
  from k1 obtain cts tr te where rest1: "rest1 = cts @ [tr, te]"
    and cts: "token_kinds cts =
                (if trimBlankLines body = [] then [] else [(CONTENT, trimBlankLines body)])"
    and tr: "ttype tr = RBRACE" and te: "ttype te = EOF"
    by (cases "trimBlankLines body = []") (auto simp: token_kinds_Cons)
  note c = kinds_content_tokens [OF cts]
  have "parseCommand toks =
         Inr (Command name []
                (Some (Block (if trimBlankLines body = [] then []
                              else [Content (trimBlankLines body) (tloc (hd cts))])
                         \<lparr>start = start (tloc lb), finish = finish (tloc tr)\<rparr>))
                None (tloc tc), [te])"
    using parseCommand_raw_closed [OF tc(1) lb c(1) tr, of "[te]"] c(2) tc(2)
    by (simp add: toks rest1)
  then have "parseChildren toks =
         Inr ([Command name []
                (Some (Block (if trimBlankLines body = [] then []
                              else [Content (trimBlankLines body) (tloc (hd cts))])
                         \<lparr>start = start (tloc lb), finish = finish (tloc tr)\<rparr>))
                None (tloc tc)], [te])"
    using tc(1) te toks
    by (simp add: parseChildren_def parseChildren_loop.simps [of "[]" "tc # lb # rest1"]
          parseChildren_loop.simps [of _ "[te]"])
  then show ?thesis
    using t by (auto simp: parse_def)
qed

lemma parse_raw_block_unclosed:
  assumes "name \<in> RAW_BLOCK_COMMANDS" and "raw_depth 1 body = Some d"
  shows "\<exists>l c loc. parse (''/'' @ name @ '' {'' @ body) =
           Inl (ParseError (''Expected }, got EOF at line '' @ show_nat l
                              @ '', column '' @ show_nat c) loc)"
proof -
  obtain toks where t: "tokenize (''/'' @ name @ '' {'' @ body) = Inr toks"
    and k: "token_kinds toks =
               (COMMAND, name) # (LBRACE, ''{'')
                 # (if trimBlankLines body = [] then [] else [(CONTENT, trimBlankLines body)])
                 @ [(EOF, [])]"
    using tokenize_raw_block [OF assms(1,2), of "[]"] by auto
  from k obtain tc lb rest1 where toks: "toks = tc # lb # rest1"
    and tc: "ttype tc = COMMAND" "tvalue tc = name" and lb: "ttype lb = LBRACE"
    and k1: "token_kinds rest1 =
               (if trimBlankLines body = [] then [] else [(CONTENT, trimBlankLines body)])
                 @ [(EOF, [])]"
    by (auto simp: token_kinds_Cons)
  from k1 obtain cts te where rest1: "rest1 = cts @ [te]"
    and cts: "token_kinds cts =
                (if trimBlankLines body = [] then [] else [(CONTENT, trimBlankLines body)])"
    and te: "ttype te = EOF"
    by (cases "trimBlankLines body = []") (auto simp: token_kinds_Cons)
  note c = kinds_content_tokens [OF cts]
  have "parseCommand toks =
         Inl (ParseError (''Expected }, got EOF at line '' @ show_nat (line (start (tloc te)))
                            @ '', column '' @ show_nat (column (start (tloc te))))
                (tloc te))"
    using parseCommand_raw_unclosed [OF tc(1) lb c(1) te, of "[]"]
    by (simp add: toks rest1)
  then have "parseChildren toks =
         Inl (ParseError (''Expected }, got EOF at line '' @ show_nat (line (start (tloc te)))
                            @ '', column '' @ show_nat (column (start (tloc te))))
                (tloc te))"
    using tc(1) toks
    by (simp add: parseChildren_def parseChildren_loop.simps [of "[]" "tc # lb # rest1"])
  then show ?thesis
    using t by (auto simp: parse_def)
qed

text \<open>
  What \<open>trimBlankLines\<close> removes is whitespace at both ends: the text is the trimmed
  text between two runs of whitespace characters.
\<close>

lemma split_lines_not_Nil [simp]: "split_lines t \<noteq> []"
  by (induction t) (auto split: list.splits)

lemma join_split_lines [simp]: "join_lines (split_lines t) = t"
proof (induction t)
  case Nil
  show ?case by simp
next
  case (Cons c cs)
  obtain l ls where s: "split_lines cs = l # ls"
    by (cases "split_lines cs") simp_all
  show ?case
    using Cons s by (cases ls) auto
qed

lemma join_lines_append:
  "join_lines (xs @ ys) =
     (if xs = [] then join_lines ys
      else if ys = [] then join_lines xs
      else join_lines xs @ CHR 0x0A # join_lines ys)"
proof (induction xs rule: join_lines.induct)
  case 1
  show ?case by simp
next
  case (2 l)
  show ?case by (cases ys) simp_all
next
  case (3 l v va)
  then show ?case by simp
qed

lemma trim_Nil_iff: "trim l = [] \<longleftrightarrow> list_all isWhiteSpace l"
proof -
  have "dropWhile isWhiteSpace (rev xs) = [] \<longleftrightarrow> xs = []"
    if "xs = [] \<or> \<not> isWhiteSpace (hd xs)" for xs
    using that by (cases xs) (auto simp: dropWhile_append)
  moreover have "dropWhile isWhiteSpace l = [] \<or> \<not> isWhiteSpace (hd (dropWhile isWhiteSpace l))"
    using hd_dropWhile [of isWhiteSpace l] by blast
  ultimately have "trim l = [] \<longleftrightarrow> dropWhile isWhiteSpace l = []"
    by (simp add: trim_def)
  then show ?thesis
    by (simp add: dropWhile_eq_Nil_conv list_all_iff)
qed

lemma join_blank_lines:
  "list_all (\<lambda>l. trim l = []) ls \<Longrightarrow> list_all isWhiteSpace (join_lines ls)"
  by (induction ls rule: join_lines.induct) (auto simp: trim_Nil_iff isWhiteSpace_def)

lemma trimBlankLines_verbatim:
  "\<exists>pre post. text = pre @ trimBlankLines text @ post
     \<and> list_all isWhiteSpace pre \<and> list_all isWhiteSpace post"
proof -
  let ?blank = "\<lambda>l. trim l = []"
  define ls where "ls = split_lines text"
  define b1 where "b1 = takeWhile ?blank ls"
  define ls1 where "ls1 = dropWhile ?blank ls"
  define b2 where "b2 = rev (takeWhile ?blank (rev ls1))"
  define ls2 where "ls2 = rev (dropWhile ?blank (rev ls1))"
  have ls: "ls = b1 @ ls2 @ b2"
  proof -
    have "rev ls1 = rev b2 @ rev ls2"
      by (simp add: b2_def ls2_def)
    then have "ls1 = ls2 @ b2"
      by (metis rev_append rev_rev_ident)
    then show ?thesis
      using takeWhile_dropWhile_id [of ?blank ls] by (simp add: b1_def ls1_def)
  qed
  have blank: "list_all ?blank b1" "list_all ?blank b2"
    by (simp_all add: b1_def b2_def list_all_iff) (auto dest: set_takeWhileD)
  have ws: "list_all isWhiteSpace (join_lines b1)" "list_all isWhiteSpace (join_lines b2)"
    using blank by (simp_all add: join_blank_lines)
  have t: "trimBlankLines text = join_lines ls2"
    by (simp add: trimBlankLines_def Let_def ls2_def ls1_def ls_def)
  have whole: "text = join_lines (b1 @ ls2 @ b2)"
    using ls join_split_lines [of "text"] by (simp add: ls_def)
  define pre where "pre = (if b1 = [] then [] else if ls2 @ b2 = [] then join_lines b1
                           else join_lines b1 @ [CHR 0x0A])"
  define post where "post = (if b2 = [] then [] else if ls2 = [] then join_lines b2
                             else CHR 0x0A # join_lines b2)"
  have "text = pre @ join_lines ls2 @ post"
    unfolding pre_def post_def by (subst whole) (auto simp: join_lines_append)
  moreover have "list_all isWhiteSpace pre" "list_all isWhiteSpace post"
    using ws by (auto simp: pre_def post_def isWhiteSpace_def)
  ultimately show ?thesis
    using t by auto
qed


lemma scanToken_raw_block_closed:
  assumes "currentCommand s \<in> RAW_BLOCK_COMMANDS"
    and "rest s = CHR ''{'' # body @ CHR ''}'' # after" and "raw_depth 1 body = Some 1"
  shows "\<exists>s'. scanToken s = Inr s'
           \<and> token_kinds (tokens s') =
               token_kinds (tokens s) @ (LBRACE, ''{'')
                 # (if trimBlankLines body = [] then [] else [(CONTENT, trimBlankLines body)])
                 @ [(RBRACE, ''}'')]
           \<and> rest s' = after"
proof -
  let ?s1 = "addToken LBRACE ''{'' (currentPosition s) (advance s)"
  have r1: "rest ?s1 = body @ CHR ''}'' # after"
    using assms(2) by simp
  have loop: "scanRawBlock_loop 1 [] ?s1 = (body, advance_over body ?s1)"
    using scanRawBlock_loop_closed [OF assms(3) r1] .
  have tk1: "tokens (advance_over body ?s1) = tokens s @
          [\<lparr>ttype = LBRACE, tvalue = ''{'',
            tloc = \<lparr>start = currentPosition s, finish = currentPosition (advance s)\<rparr>\<rparr>]"
    by (simp add: addToken_def advance_def)
  have r2: "rest (advance_over body ?s1) = CHR ''}'' # after"
    using r1 by simp
  from scanToken_raw_block [OF assms(1) _ loop r2 tk1] assms(2)
  show ?thesis
    by auto
qed

lemma scanToken_raw_block_unclosed:
  assumes "currentCommand s \<in> RAW_BLOCK_COMMANDS"
    and "rest s = CHR ''{'' # body" and "raw_depth 1 body = Some d"
  shows "\<exists>s'. scanToken s = Inr s'
           \<and> token_kinds (tokens s') =
               token_kinds (tokens s) @ (LBRACE, ''{'')
                 # (if trimBlankLines body = [] then [] else [(CONTENT, trimBlankLines body)])
           \<and> rest s' = []"
proof -
  let ?s1 = "addToken LBRACE ''{'' (currentPosition s) (advance s)"
  have r1: "rest ?s1 = body"
    using assms(2) by simp
  have loop: "scanRawBlock_loop 1 [] ?s1 = (body, advance_over body ?s1)"
    using scanRawBlock_loop_unclosed [OF assms(3) r1] .
  have tk1: "tokens (advance_over body ?s1) = tokens s @
          [\<lparr>ttype = LBRACE, tvalue = ''{'',
            tloc = \<lparr>start = currentPosition s, finish = currentPosition (advance s)\<rparr>\<rparr>]"
    by (simp add: addToken_def advance_def)
  have r2: "rest (advance_over body ?s1) = []"
    using r1 by simp
  from scanToken_raw_block [OF assms(1) _ loop r2 tk1] assms(2)
  show ?thesis
    by auto
qed

text \<open>
  C3 (counterexample). The claim says that the text between the braces of a raw block
  is emitted as a single \<open>CONTENT\<close> token. When nothing but blank lines lies between the
  braces the source emits no \<open>CONTENT\<close> token: \<open>/code {}\<close> is tokenized as
  \<open>COMMAND code\<close>, \<open>LBRACE\<close>, \<open>RBRACE\<close>, \<open>EOF\<close>.
\<close>

theorem raw_block_empty_no_content:
  "tokenize ''/code {}'' = Inr
     [\<lparr>ttype = COMMAND, tvalue = ''code'',
        tloc = \<lparr>start = \<lparr>line = 1, column = 1, offset = 0\<rparr>,
                finish = \<lparr>line = 1, column = 6, offset = 5\<rparr>\<rparr>\<rparr>,
      \<lparr>ttype = LBRACE, tvalue = ''{'',
        tloc = \<lparr>start = \<lparr>line = 1, column = 7, offset = 6\<rparr>,
                finish = \<lparr>line = 1, column = 8, offset = 7\<rparr>\<rparr>\<rparr>,
      \<lparr>ttype = RBRACE, tvalue = ''}'',
        tloc = \<lparr>start = \<lparr>line = 1, column = 8, offset = 7\<rparr>,
                finish = \<lparr>line = 1, column = 9, offset = 8\<rparr>\<rparr>\<rparr>,
      \<lparr>ttype = EOF, tvalue = [],
        tloc = \<lparr>start = \<lparr>line = 1, column = 9, offset = 8\<rparr>,
                finish = \<lparr>line = 1, column = 9, offset = 8\<rparr>\<rparr>\<rparr>]"
  by code_simp

text \<open>
  C3 (amended). Let \<open>body\<close> be raw text whose braces are balanced, so that a brace
  after it is the matching closing brace. When the scanner stands at an opening brace
  after a command of the raw-block set (\<open>code\<close>, \<open>style\<close>, \<open>list\<close>), it emits \<open>LBRACE\<close>,
  then the body with its blank leading and trailing lines trimmed as one \<open>CONTENT\<close>
  token, which is omitted when nothing is left after trimming, then \<open>RBRACE\<close>, and goes
  on after the closing brace. Trimming removes only whitespace at the two ends of the
  body. So \<open>/name {body}\<close> parses to one command whose block holds at most one
  \<open>Content\<close> node, the trimmed body, and no nested \<open>Command\<close> node.
\<close>

theorem raw_block_verbatim:
  assumes "name \<in> RAW_BLOCK_COMMANDS" and "raw_depth 1 body = Some 1"
  shows "(\<forall>(s :: tokenizer) after.
            currentCommand s \<in> RAW_BLOCK_COMMANDS \<and> rest s = CHR ''{'' # body @ CHR ''}'' # after \<longrightarrow>
            (\<exists>s'. scanToken s = Inr s'
               \<and> token_kinds (tokens s') =
                   token_kinds (tokens s) @ (LBRACE, ''{'')
                     # (if trimBlankLines body = [] then [] else [(CONTENT, trimBlankLines body)])
                     @ [(RBRACE, ''}'')]
               \<and> rest s' = after))
       \<and> (\<exists>pre post. body = pre @ trimBlankLines body @ post
             \<and> list_all isWhiteSpace pre \<and> list_all isWhiteSpace post)
       \<and> (\<exists>toks. tokenize (''/'' @ name @ '' {'' @ body @ ''}'') = Inr toks
             \<and> token_kinds toks =
                 (COMMAND, name) # (LBRACE, ''{'')
                   # (if trimBlankLines body = [] then [] else [(CONTENT, trimBlankLines body)])
                   @ [(RBRACE, ''}''), (EOF, [])])
       \<and> (\<exists>l1 l2 l3. parse (''/'' @ name @ '' {'' @ body @ ''}'') =
             Inr (Document
               [Command name []
                  (Some (Block (if trimBlankLines body = [] then []
                                else [Content (trimBlankLines body) l3]) l2))
                  None l1]))"
proof (intro conjI allI impI)
  fix s :: tokenizer and after
  assume "currentCommand s \<in> RAW_BLOCK_COMMANDS \<and> rest s = CHR ''{'' # body @ CHR ''}'' # after"
  then show "\<exists>s'. scanToken s = Inr s'
               \<and> token_kinds (tokens s') =
                   token_kinds (tokens s) @ (LBRACE, ''{'')
                     # (if trimBlankLines body = [] then [] else [(CONTENT, trimBlankLines body)])
                     @ [(RBRACE, ''}'')]
               \<and> rest s' = after"
    using scanToken_raw_block_closed [of s body after] assms(2) by blast
next
  show "\<exists>pre post. body = pre @ trimBlankLines body @ post
             \<and> list_all isWhiteSpace pre \<and> list_all isWhiteSpace post"
    by (rule trimBlankLines_verbatim)
next
  show "\<exists>toks. tokenize (''/'' @ name @ '' {'' @ body @ ''}'') = Inr toks
             \<and> token_kinds toks =
                 (COMMAND, name) # (LBRACE, ''{'')
                   # (if trimBlankLines body = [] then [] else [(CONTENT, trimBlankLines body)])
                   @ [(RBRACE, ''}''), (EOF, [])]"
    using tokenize_raw_block [OF assms(1,2), of "''}''"] by simp
next
  show "\<exists>l1 l2 l3. parse (''/'' @ name @ '' {'' @ body @ ''}'') =
             Inr (Document
               [Command name []
                  (Some (Block (if trimBlankLines body = [] then []
                                else [Content (trimBlankLines body) l3]) l2))
                  None l1])"
    using parse_raw_block_closed [OF assms] .
qed

theorem raw_block_verbatim_witness:
  "''code'' \<in> RAW_BLOCK_COMMANDS
   \<and> raw_depth 1 ''\<newline>  /foo {bar}\<newline>'' = Some 1
   \<and> (\<exists>l1 l2 l3. parse ''/code {\<newline>  /foo {bar}\<newline>}'' =
          Inr (Document
            [Command ''code'' [] (Some (Block [Content ''  /foo {bar}'' l3] l2)) None l1]))"
proof -
  have n: "''code'' \<in> RAW_BLOCK_COMMANDS"
    by (simp add: RAW_BLOCK_COMMANDS_def)
  have d: "raw_depth 1 ''\<newline>  /foo {bar}\<newline>'' = Some 1"
    by simp
  have t: "trimBlankLines ''\<newline>  /foo {bar}\<newline>'' = ''  /foo {bar}''"
    by code_simp
  show ?thesis
    using n d raw_block_verbatim [OF n d] by (simp add: t)
qed

subsection \<open>Content-only input\<close>

text \<open>
  No \<open>/\<close> at a position where a command may start: no \<open>/\<close> is the first character of a
  line other than spaces and tabs. The flag says whether the text starts at such a
  position.
\<close>

fun no_command_slash :: "bool \<Rightarrow> string \<Rightarrow> bool" where
  "no_command_slash b [] = True"
| "no_command_slash b (c # cs) =
     (if c = CHR ''/'' then \<not> b \<and> no_command_slash False cs
      else if c = CHR 0x0A then no_command_slash True cs
      else if c = CHR '' '' \<or> c = CHR 0x09 then no_command_slash b cs
      else no_command_slash False cs)"

lemma no_command_slash_mono: "no_command_slash b cs \<Longrightarrow> no_command_slash False cs"
  by (induction cs arbitrary: b) (auto split: if_splits)

lemma no_command_slash_suffix: "no_command_slash b (xs @ ys) \<Longrightarrow> no_command_slash False ys"
proof (induction xs arbitrary: b)
  case Nil
  then show ?case by (simp add: no_command_slash_mono)
next
  case (Cons x xs)
  then show ?case by (auto split: if_splits)
qed

lemma no_command_slash_drop: "no_command_slash b cs \<Longrightarrow> no_command_slash False (drop n cs)"
  using no_command_slash_suffix [of b "take n cs" "drop n cs"] by simp

lemma no_command_slash_dropWhile:
  "no_command_slash b cs \<Longrightarrow> no_command_slash False (dropWhile P cs)"
  using no_command_slash_suffix [of b "takeWhile P cs" "dropWhile P cs"] by simp

lemma no_command_slash_tl_dropWhile:
  "no_command_slash b cs \<Longrightarrow> no_command_slash False (tl (dropWhile P cs))"
  using no_command_slash_drop [of False "dropWhile P cs" 1] no_command_slash_dropWhile [of b cs P]
  by (simp add: drop_Suc)

lemma scanContent_body_content:
  assumes "rest s \<noteq> []" and "no_command_slash (canStartCommand s) (rest s)"
    and "CHR ''{'' \<notin> set (rest s)" and "CHR ''}'' \<notin> set (rest s)"
  shows "\<exists>f' consumed s'.
           scanContent_body f content s = Some (f', content @ consumed, s')
           \<and> rest s = consumed @ rest s'
           \<and> no_command_slash (canStartCommand s') (rest s')
           \<and> tokens s' = tokens s"
proof -
  obtain c cs where r: "rest s = c # cs"
    using assms(1) by (cases "rest s") simp_all
  have p: "peek s = c"
    using r by (simp add: peek_def)
  have nb: "c \<noteq> CHR ''{''" "c \<noteq> CHR ''}''"
    using assms(3,4) r by auto
  have later: "no_command_slash False cs"
    using assms(2) r by (auto split: if_splits dest: no_command_slash_mono)
  consider (fence) "c = CHR 0x60" "canStartCommand s" "matchCodeFence s"
    | (infence) "\<not> (c = CHR 0x60 \<and> canStartCommand s \<and> matchCodeFence s)" "f"
    | (inline) "\<not> (c = CHR 0x60 \<and> canStartCommand s \<and> matchCodeFence s)" "\<not> f" "c = CHR 0x60"
    | (plain) "\<not> f" "c \<noteq> CHR 0x60"
    by blast
  then show ?thesis
  proof cases
    case fence
    then obtain cs' where cs: "cs = CHR 0x60 # CHR 0x60 # cs'"
      using r by (auto simp: matchCodeFence_def split: list.splits)
    have "no_command_slash False (dropWhile (\<lambda>c. c \<noteq> CHR 0x0A) cs')"
      using later cs no_command_slash_dropWhile [of False cs'] by (auto split: if_splits)
    then show ?thesis
      using fence p r cs
      by (simp add: scanContent_body_def Let_def consumeCodeFence_def scanWhile_eq peek_def
            advance_def)
  next
    case infence
    have "c = CHR 0x0A \<Longrightarrow> no_command_slash True cs"
      using assms(2) r by simp
    then show ?thesis
      using infence p r later
      by (auto simp: scanContent_body_def Let_def advance_def newline_def)
  next
    case inline
    let ?P = "\<lambda>c. c \<noteq> CHR 0x60 \<and> c \<noteq> CHR 0x0A"
    have a: "no_command_slash False (dropWhile ?P cs)"
      "no_command_slash False (tl (dropWhile ?P cs))"
      using later by (simp_all add: no_command_slash_dropWhile no_command_slash_tl_dropWhile)
    have b: "cs = takeWhile ?P cs @ dropWhile ?P cs"
      by simp
    have c: "dropWhile ?P cs = d # ds \<Longrightarrow> cs = takeWhile ?P cs @ d # ds" for d ds
      using b by simp
    show ?thesis
      using inline p r a b
      by (auto simp: scanContent_body_def Let_def advance_def scanWhile_eq peek_def
            split: list.splits dest: c)
  next
    case plain
    have "c = CHR 0x0A \<Longrightarrow> no_command_slash True cs"
      using assms(2) r by simp
    moreover have "c = CHR ''/'' \<Longrightarrow> \<not> canStartCommand s"
      using assms(2) r by simp
    moreover have "(c = CHR '' '' \<or> c = CHR 0x09) \<Longrightarrow> canStartCommand s \<Longrightarrow> no_command_slash True cs"
      using assms(2) r by auto
    ultimately show ?thesis
      using plain p r later nb
      by (auto simp: scanContent_body_def Let_def advance_def newline_def)
  qed
qed


lemma scanContent_loop_content:
  assumes "no_command_slash (canStartCommand s) (rest s)"
    and "CHR ''{'' \<notin> set (rest s)" and "CHR ''}'' \<notin> set (rest s)"
  shows "\<exists>s'. scanContent_loop f content s = (content @ rest s, s')
           \<and> rest s' = [] \<and> tokens s' = tokens s"
  using assms
proof (induction f content s rule: scanContent_loop.induct)
  case (1 inCodeFence content s)
  show ?case
  proof (cases "rest s = []")
    case True
    then show ?thesis
      by (subst scanContent_loop.simps) (simp add: isAtEnd_def)
  next
    case False
    from scanContent_body_content [OF False "1.prems", of inCodeFence content]
    obtain f' consumed s' where
      b: "scanContent_body inCodeFence content s = Some (f', content @ consumed, s')"
      and r: "rest s = consumed @ rest s'"
      and inv: "no_command_slash (canStartCommand s') (rest s')"
      and tk: "tokens s' = tokens s"
      by blast
    have nb: "CHR ''{'' \<notin> set (rest s')" "CHR ''}'' \<notin> set (rest s')"
      using "1.prems"(2,3) r by auto
    from "1.IH" [OF _ b refl refl inv nb] False
    obtain s'' where "scanContent_loop f' (content @ consumed) s' = ((content @ consumed) @ rest s', s'')"
      and "rest s'' = []" and "tokens s'' = tokens s'"
      by (auto simp: isAtEnd_def)
    then show ?thesis
      using False b r tk by (subst scanContent_loop.simps) (simp add: isAtEnd_def)
  qed
qed

lemma tokenize_loop_content:
  assumes "no_command_slash True (rest s)"
    and "CHR ''{'' \<notin> set (rest s)" and "CHR ''}'' \<notin> set (rest s)"
    and "canStartCommand s" and "\<not> inCommandMode s"
  shows "\<exists>s'. tokenize_loop s = Inr s'
           \<and> token_kinds (tokens s') =
               token_kinds (tokens s)
                 @ (if list_all isWhiteSpace (rest s) then []
                    else [(CONTENT, dropWhile (\<lambda>c. c = CHR 0x0A) (rest s))])"
  using assms
proof (induction "rest s" arbitrary: s)
  case Nil
  then show ?case
    using tokenize_loop_end [of s] by simp
next
  case (Cons c cs)
  note r = Cons.hyps(2) [symmetric]
  have p: "peek s = c" and ne: "\<not> isAtEnd s"
    using r by (simp_all add: peek_def isAtEnd_def)
  show ?case
  proof (cases "c = CHR 0x0A")
    case True
    let ?s1 = "(newline (advance s))\<lparr>canStartCommand := True, inCommandMode := False\<rparr>"
    have st: "scanToken s = Inr ?s1"
      using True p Cons.prems(4,5) by (simp add: scanToken_def Let_def)
    have r1: "rest ?s1 = cs" "tokens ?s1 = tokens s"
      using r by (simp_all add: advance_def newline_def)
    have "\<exists>s'. tokenize_loop ?s1 = Inr s'
           \<and> token_kinds (tokens s') =
               token_kinds (tokens ?s1)
                 @ (if list_all isWhiteSpace (rest ?s1) then []
                    else [(CONTENT, dropWhile (\<lambda>c. c = CHR 0x0A) (rest ?s1))])"
      using Cons.prems(1-3) r True r1 by (intro Cons.hyps(1)) simp_all
    then obtain s' where "tokenize_loop ?s1 = Inr s'"
      and "token_kinds (tokens s') =
               token_kinds (tokens s)
                 @ (if list_all isWhiteSpace cs then []
                    else [(CONTENT, dropWhile (\<lambda>c. c = CHR 0x0A) cs)])"
      unfolding r1 by blast
    then show ?thesis
      using tokenize_loop_step [OF ne st] r True by (auto simp: isWhiteSpace_def)
  next
    case False
    have c: "c \<noteq> CHR ''{''" "c \<noteq> CHR ''}''" "c \<noteq> CHR ''/''"
      using Cons.prems(1-3) r by auto
    have st: "scanToken s = Inr (scanContent (currentPosition s) s)"
      using False c p Cons.prems(4,5) by (simp add: scanToken_def Let_def)
    obtain s1 where l: "scanContent_loop False [] s = (rest s, s1)"
      and r1: "rest s1 = []" and t1: "tokens s1 = tokens s"
      using scanContent_loop_content [of s False "[]"] Cons.prems(1-4) by auto
    define s2 where "s2 = scanContent (currentPosition s) s"
    have r2: "rest s2 = []"
      and t2: "token_kinds (tokens s2) =
                 token_kinds (tokens s)
                   @ (if list_all isWhiteSpace (rest s) then [] else [(CONTENT, rest s)])"
      using l r1 t1
      by (auto simp: s2_def scanContent_def trim_Nil_iff token_kinds_def addToken_def)
    have "tokenize_loop s = Inr s2"
      using tokenize_loop_step [OF ne st] tokenize_loop_end [OF r2] by (simp add: s2_def)
    then show ?thesis
      using t2 r False by simp
  qed
qed

text \<open>
  C8. An input without braces and without a \<open>/\<close> that is the first character of a line
  other than spaces and tabs is tokenized to one \<open>CONTENT\<close> token, the input without its
  leading newlines, followed by \<open>EOF\<close>; when the input is entirely whitespace the
  \<open>CONTENT\<close> token is omitted and only \<open>EOF\<close> is produced.
\<close>

theorem content_only_tokens:
  assumes "CHR ''{'' \<notin> set src" and "CHR ''}'' \<notin> set src" and "no_command_slash True src"
  shows "\<exists>toks. tokenize src = Inr toks
           \<and> token_kinds toks =
               (if list_all isWhiteSpace src then [(EOF, [])]
                else [(CONTENT, dropWhile (\<lambda>c. c = CHR 0x0A) src), (EOF, [])])"
proof -
  obtain s' where "tokenize_loop (new_tokenizer src) = Inr s'"
    and "token_kinds (tokens s') =
           (if list_all isWhiteSpace src then []
            else [(CONTENT, dropWhile (\<lambda>c. c = CHR 0x0A) src)])"
    using tokenize_loop_content [of "new_tokenizer src"] assms
    by (auto simp: new_tokenizer_def token_kinds_def)
  then show ?thesis
    by (simp add: tokenize_def token_kinds_def)
qed

theorem content_only_tokens_witness:
  "CHR ''{'' \<notin> set ''\<newline>Visit https://example.com\<newline>  now''
   \<and> CHR ''}'' \<notin> set ''\<newline>Visit https://example.com\<newline>  now''
   \<and> no_command_slash True ''\<newline>Visit https://example.com\<newline>  now''
   \<and> (\<exists>toks. tokenize ''\<newline>Visit https://example.com\<newline>  now'' = Inr toks
         \<and> token_kinds toks = [(CONTENT, ''Visit https://example.com\<newline>  now''), (EOF, [])])"
proof -
  have a: "CHR ''{'' \<notin> set ''\<newline>Visit https://example.com\<newline>  now''"
    and b: "CHR ''}'' \<notin> set ''\<newline>Visit https://example.com\<newline>  now''"
    and c: "no_command_slash True ''\<newline>Visit https://example.com\<newline>  now''"
    by simp_all
  show ?thesis
    using a b c content_only_tokens [OF a b c] by (simp add: isWhiteSpace_def)
qed

subsection \<open>Where a command may start\<close>

lemma scanToken_slash_start:
  assumes "rest s = CHR ''/'' # r" and "canStartCommand s"
  shows "scanToken s = scanCommand (currentPosition s) s"
  using assms by (simp add: scanToken_def peek_def Let_def)

lemma scanCommand_slash:
  assumes "rest s = CHR ''/'' # r"
  shows "scanCommand st s =
         (if takeWhile isIdentifierChar r = [] then
            Inl (LexError (''Expected command name after / at line '' @ show_nat (line st)
                             @ '', column '' @ show_nat (column st)))
          else
            Inr (s\<lparr>rest := dropWhile isIdentifierChar r,
                   pos := pos s + 1 + length (takeWhile isIdentifierChar r),
                   cur_column := cur_column s + 1 + length (takeWhile isIdentifierChar r),
                   tokens := tokens s @
                     [\<lparr>ttype = COMMAND, tvalue = takeWhile isIdentifierChar r,
                       tloc = \<lparr>start = st,
                               finish = \<lparr>line = cur_line s,
                                         column = cur_column s + 1
                                                  + length (takeWhile isIdentifierChar r),
                                         offset = pos s + 1
                                                  + length (takeWhile isIdentifierChar r)\<rparr>\<rparr>\<rparr>],
                   canStartCommand := False, inCommandMode := True,
                   currentCommand := takeWhile isIdentifierChar r\<rparr>))"
  using assms
  by (simp add: scanCommand_def Let_def scanWhile_eq lex_error_def addToken_def advance_def
        currentPosition_def)

lemma scanContent_body_prefix:
  "scanContent_body f content s = Some (f', content', s') \<Longrightarrow> \<exists>more. content' = content @ more"
  by (auto simp: scanContent_body_def Let_def scanWhile_eq consumeCodeFence_def
        split: if_splits prod.splits)

lemma scanContent_loop_prefix:
  "\<exists>more. fst (scanContent_loop f content s) = content @ more"
proof (induction f content s rule: scanContent_loop.induct)
  case (1 inCodeFence content s)
  show ?case
  proof (cases "isAtEnd s \<or> scanContent_body inCodeFence content s = None")
    case True
    then show ?thesis
      by (subst scanContent_loop.simps) auto
  next
    case False
    then obtain f' c' s' where b: "scanContent_body inCodeFence content s = Some (f', c', s')"
      and ne: "\<not> isAtEnd s"
      by auto
    obtain m1 where m1: "c' = content @ m1"
      using scanContent_body_prefix [OF b] by blast
    obtain m2 where "fst (scanContent_loop f' c' s') = c' @ m2"
      using "1.IH" [OF ne b refl refl] by blast
    then show ?thesis
      using b ne m1 by (subst scanContent_loop.simps) simp
  qed
qed

lemma scanContent_body_slash:
  assumes "rest s = CHR ''/'' # r"
  shows "scanContent_body f content s =
         (if canStartCommand s \<and> \<not> f then None
          else Some (f, content @ ''/'', (advance s)\<lparr>canStartCommand := False\<rparr>))"
  using assms by (simp add: scanContent_body_def peek_def Let_def)

lemma scanToken_slash_elsewhere:
  assumes "rest s = CHR ''/'' # r" and "\<not> canStartCommand s"
  shows "\<exists>s' t more. scanToken s = Inr s' \<and> tokens s' = tokens s @ [t]
           \<and> ttype t = (if inCommandMode s then VALUE else CONTENT)
           \<and> tvalue t = CHR ''/'' # more"
proof (cases "inCommandMode s")
  case True
  have v: "isValueChar (CHR ''/'')"
    by (simp add: isValueChar_def isWhiteSpace_def)
  have "scanToken s = scanCommandPart (currentPosition s) s"
    using assms True by (simp add: scanToken_def peek_def Let_def)
  also have "\<dots> = Inr (addToken VALUE (CHR ''/'' # takeWhile isValueChar r) (currentPosition s)
                        (snd (scanWhile isValueChar [] s)))"
    using assms(1) v by (simp add: scanCommandPart_def peek_def Let_def scanWhile_eq)
  finally show ?thesis
    using True by (simp add: addToken_def scanWhile_eq)
next
  case False
  have st: "scanToken s = Inr (scanContent (currentPosition s) s)"
    using assms False by (simp add: scanToken_def peek_def Let_def)
  have ne: "\<not> isAtEnd s"
    using assms(1) by (simp add: isAtEnd_def)
  have "scanContent_loop False [] s =
          scanContent_loop False ''/'' ((advance s)\<lparr>canStartCommand := False\<rparr>)"
    using scanContent_body_slash [OF assms(1), of False "[]"] assms(2) ne
    by (subst scanContent_loop.simps) simp
  moreover obtain more where
    "fst (scanContent_loop False ''/'' ((advance s)\<lparr>canStartCommand := False\<rparr>)) = ''/'' @ more"
    using scanContent_loop_prefix by blast
  ultimately have "fst (scanContent_loop False [] s) = CHR ''/'' # more"
    by simp
  then obtain s1 where l: "scanContent_loop False [] s = (CHR ''/'' # more, s1)"
    by (metis prod.collapse)
  have tk: "tokens (snd (scanContent_loop f c s0)) = tokens s0" for f c s0
  proof (induction f c s0 rule: scanContent_loop.induct)
    case (1 inCodeFence content s)
    show ?case
    proof (cases "isAtEnd s \<or> scanContent_body inCodeFence content s = None")
      case True
      then show ?thesis
        by (subst scanContent_loop.simps) auto
    next
      case False
      then obtain f' c' s' where b: "scanContent_body inCodeFence content s = Some (f', c', s')"
        and ne: "\<not> isAtEnd s"
        by auto
      have "tokens s' = tokens s"
        using b by (auto simp: scanContent_body_def Let_def scanWhile_eq consumeCodeFence_def
                      advance_def newline_def split: if_splits prod.splits)
      then show ?thesis
        using "1.IH" [OF ne b refl refl] b ne by (subst scanContent_loop.simps) simp
    qed
  qed
  have "tokens s1 = tokens s"
    using tk [of False "[]" s] l by simp
  moreover have "trim (CHR ''/'' # more) \<noteq> []"
    by (simp add: trim_Nil_iff isWhiteSpace_def)
  ultimately show ?thesis
    using st l False by (simp add: scanContent_def addToken_def)
qed

subsection \<open>Unterminated raw blocks\<close>

lemma set_split_lines: "l \<in> set (split_lines t) \<Longrightarrow> set l \<subseteq> set t"
proof (induction t arbitrary: l)
  case Nil
  then show ?case by simp
next
  case (Cons c cs)
  obtain x xs where s: "split_lines cs = x # xs"
    by (cases "split_lines cs") simp_all
  have ih: "set x \<subseteq> set cs" "\<And>l. l \<in> set xs \<Longrightarrow> set l \<subseteq> set cs"
    using Cons.IH s by simp_all
  show ?case
  proof (cases "c = CHR 0x0A")
    case True
    then have "l = [] \<or> l = x \<or> l \<in> set xs"
      using Cons.prems s by simp
    then show ?thesis
      using ih by auto
  next
    case False
    then have "l = c # x \<or> l \<in> set xs"
      using Cons.prems s by simp
    then show ?thesis
      using ih by auto
  qed
qed

lemma join_lines_Nil_hd: "ls \<noteq> [] \<Longrightarrow> hd ls \<noteq> [] \<Longrightarrow> join_lines ls \<noteq> []"
  by (cases ls rule: join_lines.cases) auto

lemma trimBlankLines_Nil_iff: "trimBlankLines t = [] \<longleftrightarrow> list_all isWhiteSpace t"
proof
  let ?blank = "\<lambda>l. trim l = []"
  let ?ls1 = "dropWhile ?blank (split_lines t)"
  let ?ls2 = "rev (dropWhile ?blank (rev ?ls1))"
  assume e: "trimBlankLines t = []"
  have "?ls1 = []"
  proof (rule ccontr)
    assume ne: "?ls1 \<noteq> []"
    then obtain x xs where c: "?ls1 = x # xs"
      by (cases ?ls1) simp_all
    have h: "\<not> ?blank x"
      using hd_dropWhile [of ?blank "split_lines t"] ne c by simp
    have "dropWhile ?blank (rev xs @ [x]) \<noteq> []
            \<and> last (dropWhile ?blank (rev xs @ [x])) = x"
      using h by (simp add: dropWhile_append)
    then have "?ls2 \<noteq> [] \<and> hd ?ls2 = x"
      unfolding c by (simp add: hd_rev)
    moreover have "x \<noteq> []"
      using h by (auto simp: trim_def)
    ultimately have "join_lines ?ls2 \<noteq> []"
      using join_lines_Nil_hd [of ?ls2] by simp
    then show False
      using e by (simp add: trimBlankLines_def Let_def)
  qed
  then have "list_all ?blank (split_lines t)"
    by (simp add: dropWhile_eq_Nil_conv list_all_iff)
  then have "list_all isWhiteSpace (join_lines (split_lines t))"
    by (rule join_blank_lines)
  then show "list_all isWhiteSpace t"
    by simp
next
  assume w: "list_all isWhiteSpace t"
  have "\<forall>l \<in> set (split_lines t). trim l = []"
    using w set_split_lines [of _ t] by (auto simp: trim_Nil_iff list_all_iff)
  then have d: "dropWhile (\<lambda>l. trim l = []) (split_lines t) = []"
    by (simp only: dropWhile_eq_Nil_conv)
  show "trimBlankLines t = []"
    unfolding trimBlankLines_def Let_def d by simp
qed

lemma parseCommand_unclosed_block:
  assumes "ttype c = COMMAND" and "parseArgs ts1 = Inr (args, lb # cts @ te # ts)"
    and "ttype lb = LBRACE" and "list_all (\<lambda>t. ttype t = CONTENT) cts" and "ttype te = EOF"
  shows "parseCommand (c # ts1) =
         Inl (ParseError (''Expected }, got EOF at line '' @ show_nat (line (start (tloc te)))
                            @ '', column '' @ show_nat (column (start (tloc te))))
                (tloc te))"
proof -
  have b: "parseBlock (lb # cts @ te # ts) =
         Inl (ParseError (''Expected }, got EOF at line '' @ show_nat (line (start (tloc te)))
                            @ '', column '' @ show_nat (column (start (tloc te))))
                (tloc te))"
    using assms(3,5) parseChildren_loop_contents [OF assms(4), of te "[]" ts]
    by (subst parseBlock.simps)
       (simp add: consume_def parse_error_def TokenType_name_def)
  show ?thesis
    using assms(1,2,3) b
    by (subst parseCommand.simps) (simp add: consume_def)
qed

lemma parseChildren_loop_command_error:
  assumes "ttype c = COMMAND" and "parseCommand (c # ts) = Inl e"
  shows "parseChildren_loop children (c # ts) = Inl e"
  using assms by (subst parseChildren_loop.simps) simp





subsection \<open>Pipe chains in a command line\<close>

lemma parseArgs_loop_values:
  assumes "list_all (\<lambda>a. ttype a = VALUE \<or> ttype a = STRING) as"
    and "ttype u = PIPE \<or> ttype u = EOF"
  shows "parseArgs_loop args (as @ u # ts) =
         Inr (args @ map (\<lambda>a. PositionalArg (tvalue a) (tloc a)) as, u # ts)"
  using assms(1)
proof (induction as arbitrary: args)
  case Nil
  then show ?case
    using assms(2) by (subst parseArgs_loop.simps) auto
next
  case (Cons a as)
  then show ?case
    by (subst parseArgs_loop.simps) auto
qed

lemma concat_segments_head:
  assumes "list_all well_formed_segment segs" and "segs \<noteq> []"
  shows "\<exists>bar ts'. concat (map segment_tokens segs) = bar # ts' \<and> ttype bar = PIPE"
proof -
  obtain seg segs' where "segs = seg # segs'"
    using assms(2) by (cases segs) simp_all
  moreover obtain bar n as where "seg = (bar, n, as)"
    by (cases seg)
  ultimately show ?thesis
    using assms(1) by simp
qed

lemma parseCommand_pipe_chain:
  assumes "ttype c = COMMAND"
    and "list_all (\<lambda>a. ttype a = VALUE \<or> ttype a = STRING) as"
    and "list_all well_formed_segment segs"
    and "ttype t \<noteq> PIPE" and "ttype t \<noteq> VALUE" and "ttype t \<noteq> STRING" and "ttype t \<noteq> LBRACE"
    and "segs \<noteq> [] \<or> ttype t = EOF"
  shows "parseCommand (c # as @ concat (map segment_tokens segs) @ t # ts) =
         Inr (Command (tvalue c) (map (\<lambda>a. PositionalArg (tvalue a) (tloc a)) as) None
                (if segs = [] then None else Some (map segment_pipe segs)) (tloc c),
              t # ts)"
proof (cases "segs = []")
  case True
  then have eof: "ttype t = EOF"
    using assms(8) by simp
  have a: "parseArgs (as @ t # ts) =
             Inr (map (\<lambda>a. PositionalArg (tvalue a) (tloc a)) as, t # ts)"
    using parseArgs_loop_values [OF assms(2), of t "[]" ts] eof by (simp add: parseArgs_def)
  show ?thesis
    using True assms(1) a eof
    by (subst parseCommand.simps) (simp add: consume_def parseCommand_pipes_def)
next
  case False
  obtain bar ts' where h: "concat (map segment_tokens segs) = bar # ts'" and bar: "ttype bar = PIPE"
    using concat_segments_head [OF assms(3) False] by blast
  have a: "parseArgs (as @ bar # ts' @ t # ts) =
             Inr (map (\<lambda>a. PositionalArg (tvalue a) (tloc a)) as, bar # ts' @ t # ts)"
    using parseArgs_loop_values [OF assms(2), of bar "[]" "ts' @ t # ts"] bar
    by (simp add: parseArgs_def)
  have p: "parsePipes (bar # ts' @ t # ts) = Inr (map segment_pipe segs, t # ts)"
    using parsePipes_loop_segments [OF assms(3,4,5,6), of "[]" ts] h
    by (simp add: parsePipes_def)
  show ?thesis
    using False assms(1) a p bar h
    by (subst parseCommand.simps) (simp add: consume_def parseCommand_pipes_def)
qed

lemma parseChildren_loop_skip:
  assumes "ttype t = PIPE \<or> ttype t = LONG_FLAG \<or> ttype t = SHORT_FLAG \<or> ttype t = STRING
             \<or> ttype t = VALUE \<or> ttype t = NEWLINE"
  shows "parseChildren_loop children (t # ts) = parseChildren_loop children ts"
  using assms by (subst parseChildren_loop.simps) auto


text \<open>
  The text of a command line: \<open>/cmd\<close>, the arguments, each after one space, and the
  pipe segments \<open> | name arg ...\<close>. A plain word is a non-empty run of value
  characters that starts neither a flag nor a quoted string.
\<close>

definition plain_word :: "string \<Rightarrow> bool" where
  "plain_word w = (w \<noteq> [] \<and> list_all isValueChar w
                    \<and> hd w \<noteq> CHR ''-'' \<and> hd w \<noteq> CHR 0x22 \<and> hd w \<noteq> CHR 0x27)"

definition words_text :: "string list \<Rightarrow> string" where
  "words_text ws = concat (map (\<lambda>w. CHR '' '' # w) ws)"

fun segment_text :: "string \<times> string list \<Rightarrow> string" where
  "segment_text (n, as) = '' |'' @ words_text (n # as)"

definition command_text :: "string \<Rightarrow> string list \<Rightarrow> (string \<times> string list) list \<Rightarrow> string" where
  "command_text cmd as segs = CHR ''/'' # cmd @ words_text as @ concat (map segment_text segs)"

fun well_formed_segment_text :: "string \<times> string list \<Rightarrow> bool" where
  "well_formed_segment_text (n, as) = (plain_word n \<and> list_all plain_word as)"

text \<open>The text of an argument, when it is positional; the name and the arguments of a pipe.\<close>

fun positional_value :: "argument \<Rightarrow> string option" where
  "positional_value (PositionalArg v l) = Some v"
| "positional_value (FlagArg n s v l) = None"

definition pipe_shape :: "pipe \<Rightarrow> string \<times> string option list" where
  "pipe_shape p = (pipe_name p, map positional_value (pipe_args p))"

lemma tokenize_loop_word:
  assumes "inCommandMode s" and "\<not> canStartCommand s"
    and "rest s = CHR '' '' # w @ tail" and "plain_word w"
    and "tail = [] \<or> hd tail = CHR '' ''"
  shows "\<exists>s' t. tokenize_loop s = tokenize_loop s' \<and> inCommandMode s' \<and> \<not> canStartCommand s'
           \<and> rest s' = tail \<and> tokens s' = tokens s @ [t] \<and> ttype t = VALUE \<and> tvalue t = w"
proof -
  obtain c cs where w: "w = c # cs"
    using assms(4) by (cases w) (simp_all add: plain_word_def)
  have c: "isValueChar c" "c \<noteq> CHR ''-''" "c \<noteq> CHR 0x22" "c \<noteq> CHR 0x27" "list_all isValueChar cs"
    using assms(4) w by (simp_all add: plain_word_def)
  have c': "c \<noteq> CHR '' ''" "c \<noteq> CHR 0x09" "c \<noteq> CHR 0x0D" "c \<noteq> CHR 0x0A" "c \<noteq> CHR ''{''"
    "c \<noteq> CHR ''}''" "c \<noteq> CHR ''|''"
    using c(1) by (auto simp: isValueChar_def isWhiteSpace_def)
  have tl: "takeWhile isValueChar tail = []" "dropWhile isValueChar tail = tail"
    using assms(5) by (cases tail; auto simp: isValueChar_def isWhiteSpace_def)+
  have tw: "takeWhile isValueChar (cs @ tail) = cs" "dropWhile isValueChar (cs @ tail) = tail"
    using c(5) tl by (simp_all add: list_all_iff)
  let ?s1 = "advance s"
  have 1: "scanToken s = Inr ?s1"
    using assms(1,3) by (simp add: scanToken_def peek_def Let_def)
  have r1: "rest ?s1 = c # cs @ tail" "inCommandMode ?s1" "\<not> canStartCommand ?s1"
    "tokens ?s1 = tokens s"
    using assms(1,2,3) w by (simp_all add: advance_def)
  let ?s2 = "addToken VALUE w (currentPosition ?s1) (snd (scanWhile isValueChar [] ?s1))"
  have 2: "scanToken ?s1 = Inr ?s2"
    using r1 c c' tw w
    by (simp add: scanToken_def scanCommandPart_def peek_def Let_def scanWhile_eq)
  have r2: "rest ?s2 = tail" "inCommandMode ?s2" "\<not> canStartCommand ?s2"
    "\<exists>t. tokens ?s2 = tokens s @ [t] \<and> ttype t = VALUE \<and> tvalue t = w"
    using r1 c tw by (simp_all add: scanWhile_eq addToken_def)
  have "tokenize_loop s = tokenize_loop ?s1"
    using 1 assms(3) by (intro tokenize_loop_step) (simp_all add: isAtEnd_def)
  also have "\<dots> = tokenize_loop ?s2"
    using 2 r1 by (intro tokenize_loop_step) (simp_all add: isAtEnd_def)
  finally show ?thesis
    using r2 by blast
qed

lemma words_text_tail:
  "tail = [] \<or> hd tail = CHR '' '' \<Longrightarrow> words_text ws @ tail = [] \<or> hd (words_text ws @ tail) = CHR '' ''"
  by (cases ws) (simp_all add: words_text_def)

lemma tokenize_loop_words:
  assumes "inCommandMode s" and "\<not> canStartCommand s"
    and "rest s = words_text ws @ tail" and "list_all plain_word ws"
    and "tail = [] \<or> hd tail = CHR '' ''"
  shows "\<exists>s' vs. tokenize_loop s = tokenize_loop s' \<and> inCommandMode s' \<and> \<not> canStartCommand s'
           \<and> rest s' = tail \<and> tokens s' = tokens s @ vs
           \<and> list_all (\<lambda>t. ttype t = VALUE) vs \<and> map tvalue vs = ws"
  using assms(1,2,3,4)
proof (induction ws arbitrary: s)
  case Nil
  then show ?case
    by (intro exI [of _ s] exI [of _ "[]"]) (simp add: words_text_def)
next
  case (Cons w ws)
  have r: "rest s = CHR '' '' # w @ (words_text ws @ tail)"
    using Cons.prems(3) by (simp add: words_text_def)
  obtain s1 t where s1: "tokenize_loop s = tokenize_loop s1" "inCommandMode s1"
    "\<not> canStartCommand s1" "rest s1 = words_text ws @ tail" "tokens s1 = tokens s @ [t]"
    "ttype t = VALUE" "tvalue t = w"
    using tokenize_loop_word [OF Cons.prems(1,2) r _ words_text_tail [OF assms(5)]] Cons.prems(4)
    by auto
  obtain s' vs where s': "tokenize_loop s1 = tokenize_loop s'" "inCommandMode s'"
    "\<not> canStartCommand s'" "rest s' = tail" "tokens s' = tokens s1 @ vs"
    "list_all (\<lambda>t. ttype t = VALUE) vs" "map tvalue vs = ws"
    using Cons.IH [OF s1(2,3,4)] Cons.prems(4) by auto
  show ?case
    using s1 s' by (intro exI [of _ s'] exI [of _ "t # vs"]) simp
qed

lemma tokenize_loop_bar:
  assumes "inCommandMode s" and "\<not> canStartCommand s" and "rest s = '' |'' @ tail"
  shows "\<exists>s' t. tokenize_loop s = tokenize_loop s' \<and> inCommandMode s' \<and> \<not> canStartCommand s'
           \<and> rest s' = tail \<and> tokens s' = tokens s @ [t] \<and> ttype t = PIPE"
proof -
  let ?s1 = "advance s"
  have 1: "scanToken s = Inr ?s1"
    using assms(1,3) by (simp add: scanToken_def peek_def Let_def)
  have r1: "rest ?s1 = CHR ''|'' # tail" "inCommandMode ?s1" "\<not> canStartCommand ?s1"
    "tokens ?s1 = tokens s"
    using assms by (simp_all add: advance_def)
  let ?s2 = "addToken PIPE ''|'' (currentPosition ?s1) (advance ?s1)"
  have 2: "scanToken ?s1 = Inr ?s2"
    using r1 by (simp add: scanToken_def scanCommandPart_def peek_def Let_def)
  have r2: "rest ?s2 = tail" "inCommandMode ?s2" "\<not> canStartCommand ?s2"
    "\<exists>t. tokens ?s2 = tokens s @ [t] \<and> ttype t = PIPE"
    using r1 by (simp_all add: addToken_def advance_def)
  have "tokenize_loop s = tokenize_loop ?s1"
    using 1 assms(3) by (intro tokenize_loop_step) (simp_all add: isAtEnd_def)
  also have "\<dots> = tokenize_loop ?s2"
    using 2 r1 by (intro tokenize_loop_step) (simp_all add: isAtEnd_def)
  finally show ?thesis
    using r2 by blast
qed

lemma tokenize_loop_segments:
  assumes "inCommandMode s" and "\<not> canStartCommand s"
    and "rest s = concat (map segment_text segs)" and "list_all well_formed_segment_text segs"
  shows "\<exists>s' tsegs. tokenize_loop s = tokenize_loop s' \<and> rest s' = []
           \<and> tokens s' = tokens s @ concat (map segment_tokens tsegs)
           \<and> list_all well_formed_segment tsegs
           \<and> map (\<lambda>g. pipe_shape (segment_pipe g)) tsegs = map (\<lambda>(n, as). (n, map Some as)) segs"
  using assms
proof (induction segs arbitrary: s)
  case Nil
  then show ?case
    by (intro exI [of _ s] exI [of _ "[]"]) simp
next
  case (Cons seg segs)
  obtain n as where seg: "seg = (n, as)"
    by (cases seg)
  define tail where "tail = concat (map segment_text segs)"
  have tail: "tail = [] \<or> hd tail = CHR '' ''"
  proof (cases segs)
    case Nil
    then show ?thesis by (simp add: tail_def)
  next
    case (Cons seg' segs')
    then show ?thesis by (cases seg') (simp add: tail_def)
  qed
  have r: "rest s = '' |'' @ (words_text (n # as) @ tail)"
    using Cons.prems(3) seg by (simp add: tail_def)
  obtain s1 bar where s1: "tokenize_loop s = tokenize_loop s1" "inCommandMode s1"
    "\<not> canStartCommand s1" "rest s1 = words_text (n # as) @ tail" "tokens s1 = tokens s @ [bar]"
    "ttype bar = PIPE"
    using tokenize_loop_bar [OF Cons.prems(1,2) r] by auto
  have pw: "list_all plain_word (n # as)"
    using Cons.prems(4) seg by simp
  obtain s2 vs where s2: "tokenize_loop s1 = tokenize_loop s2" "inCommandMode s2"
    "\<not> canStartCommand s2" "rest s2 = tail" "tokens s2 = tokens s1 @ vs"
    "list_all (\<lambda>t. ttype t = VALUE) vs" "map tvalue vs = n # as"
    using tokenize_loop_words [OF s1(2,3,4) pw tail] by auto
  obtain nt ats where vs: "vs = nt # ats"
    using s2(7) by (cases vs) simp_all
  obtain s' tsegs where s': "tokenize_loop s2 = tokenize_loop s'" "rest s' = []"
    "tokens s' = tokens s2 @ concat (map segment_tokens tsegs)"
    "list_all well_formed_segment tsegs"
    "map (\<lambda>g. pipe_shape (segment_pipe g)) tsegs = map (\<lambda>(n, as). (n, map Some as)) segs"
    using Cons.IH [OF s2(2,3)] s2(4) Cons.prems(4) by (auto simp: tail_def)
  have wf: "well_formed_segment (bar, nt, ats)"
    using s1(6) s2(6) vs by (simp add: list_all_iff)
  have sh: "pipe_shape (segment_pipe (bar, nt, ats)) = (n, map Some as)"
    using s2(7) vs by (auto simp: pipe_shape_def)
  show ?case
    using s1 s2 s' wf sh vs seg
    by (intro exI [of _ s'] exI [of _ "(bar, nt, ats) # tsegs"]) simp
qed


lemma parseChildren_loop_skip_all:
  assumes "list_all (\<lambda>t. ttype t = PIPE \<or> ttype t = LONG_FLAG \<or> ttype t = SHORT_FLAG
                          \<or> ttype t = STRING \<or> ttype t = VALUE \<or> ttype t = NEWLINE) us"
  shows "parseChildren_loop children (us @ ts) = parseChildren_loop children ts"
  using assms by (induction us) (simp_all add: parseChildren_loop_skip)

lemma parseChildren_loop_end:
  "ttype e = EOF \<or> ttype e = RBRACE \<Longrightarrow> parseChildren_loop children (e # ts) = Inr (children, e # ts)"
  by (subst parseChildren_loop.simps) auto

lemma parseChildren_loop_pipe_chain:
  assumes "ttype c = COMMAND"
    and "list_all (\<lambda>a. ttype a = VALUE \<or> ttype a = STRING) as"
    and "list_all well_formed_segment segs"
    and "ttype t \<noteq> PIPE" and "ttype t \<noteq> VALUE" and "ttype t \<noteq> STRING" and "ttype t \<noteq> LBRACE"
    and "segs \<noteq> [] \<or> ttype t = EOF"
  shows "parseChildren_loop children (c # as @ concat (map segment_tokens segs) @ t # ts) =
         parseChildren_loop
           (children @ [Command (tvalue c) (map (\<lambda>a. PositionalArg (tvalue a) (tloc a)) as) None
                          (if segs = [] then None else Some (map segment_pipe segs)) (tloc c)])
           (t # ts)"
  using assms(1) parseCommand_pipe_chain [OF assms, of ts]
  by (subst parseChildren_loop.simps) simp

lemma parse_command_text:
  assumes "cmd \<noteq> []" and "list_all isIdentifierChar cmd" and "list_all plain_word as"
    and "list_all well_formed_segment_text segs"
  shows "\<exists>args pipes l. parse (command_text cmd as segs) = Inr (Document [Command cmd args None pipes l])
           \<and> map positional_value args = map Some as
           \<and> map_option (map pipe_shape) pipes =
               (if segs = [] then None else Some (map (\<lambda>(n, as). (n, map Some as)) segs))"
proof -
  define tail where "tail = concat (map segment_text segs)"
  have tail: "tail = [] \<or> hd tail = CHR '' ''"
  proof (cases segs)
    case Nil
    then show ?thesis by (simp add: tail_def)
  next
    case (Cons seg' segs')
    then show ?thesis by (cases seg') (simp add: tail_def)
  qed
  define R where "R = words_text as @ tail"
  have R: "R = [] \<or> hd R = CHR '' ''"
    unfolding R_def by (rule words_text_tail [OF tail])
  have twR: "takeWhile isIdentifierChar R = []" "dropWhile isIdentifierChar R = R"
    using R by (cases R; auto simp: isIdentifierChar_def)+
  have tw: "takeWhile isIdentifierChar (cmd @ R) = cmd" "dropWhile isIdentifierChar (cmd @ R) = R"
    using assms(2) twR by (simp_all add: list_all_iff)
  define s0 where "s0 = new_tokenizer (command_text cmd as segs)"
  have r0: "rest s0 = CHR ''/'' # cmd @ R" "canStartCommand s0" "tokens s0 = []"
    by (simp_all add: s0_def new_tokenizer_def command_text_def R_def tail_def)
  let ?s1 = "(addToken COMMAND cmd (currentPosition s0)
               (snd (scanWhile isIdentifierChar [] (advance s0))))
             \<lparr>canStartCommand := False, inCommandMode := True, currentCommand := cmd\<rparr>"
  have 1: "scanToken s0 = Inr ?s1"
    using r0 tw assms(1)
    by (simp add: scanToken_def scanCommand_def peek_def Let_def scanWhile_eq)
  obtain ct where r1: "rest ?s1 = words_text as @ tail" "inCommandMode ?s1" "\<not> canStartCommand ?s1"
    "tokens ?s1 = [ct]" "ttype ct = COMMAND" "tvalue ct = cmd"
    using r0 tw by (simp add: scanWhile_eq addToken_def advance_def R_def)
  obtain s2 vs where s2: "tokenize_loop ?s1 = tokenize_loop s2" "inCommandMode s2"
    "\<not> canStartCommand s2" "rest s2 = tail" "tokens s2 = tokens ?s1 @ vs"
    "list_all (\<lambda>t. ttype t = VALUE) vs" "map tvalue vs = as"
    using tokenize_loop_words [OF r1(2,3,1) assms(3) tail] by blast
  obtain s3 tsegs where s3: "tokenize_loop s2 = tokenize_loop s3" "rest s3 = []"
    "tokens s3 = tokens s2 @ concat (map segment_tokens tsegs)"
    "list_all well_formed_segment tsegs"
    "map (\<lambda>g. pipe_shape (segment_pipe g)) tsegs = map (\<lambda>(n, as). (n, map Some as)) segs"
    using tokenize_loop_segments [OF s2(2,3) _ assms(4)] s2(4) by (auto simp: tail_def)
  have "tokenize_loop s0 = tokenize_loop ?s1"
    using 1 r0 by (intro tokenize_loop_step) (simp_all add: isAtEnd_def)
  also have "\<dots> = Inr s3"
    using s2(1) s3(1,2) by (simp add: tokenize_loop_end)
  finally have tl: "tokenize_loop (new_tokenizer (command_text cmd as segs)) = Inr s3"
    by (simp add: s0_def)
  define e where "e = \<lparr>ttype = EOF, tvalue = [], tloc = currentLocation s3\<rparr>"
  have toks: "tokenize (command_text cmd as segs) =
                Inr (ct # vs @ concat (map segment_tokens tsegs) @ [e])"
    using tl s3(3) s2(5) r1(4) by (simp add: tokenize_def e_def)
  have vs: "list_all (\<lambda>a. ttype a = VALUE \<or> ttype a = STRING) vs"
    using s2(6) by (simp add: list_all_iff)
  let ?args = "map (\<lambda>a. PositionalArg (tvalue a) (tloc a)) vs"
  let ?pipes = "if tsegs = [] then None else Some (map segment_pipe tsegs)"
  have "parseChildren_loop [] (ct # vs @ concat (map segment_tokens tsegs) @ e # []) =
          parseChildren_loop ([] @ [Command (tvalue ct) ?args None ?pipes (tloc ct)]) (e # [])"
    using r1(5) vs s3(4) by (intro parseChildren_loop_pipe_chain) (simp_all add: e_def)
  also have "\<dots> = Inr ([Command cmd ?args None ?pipes (tloc ct)], [e])"
    using r1(6) by (simp add: parseChildren_loop_end e_def)
  finally have p: "parse (command_text cmd as segs) =
                     Inr (Document [Command cmd ?args None ?pipes (tloc ct)])"
    using toks by (simp add: parse_def parseChildren_def)
  have a: "map positional_value ?args = map Some as"
    using s2(7) by (auto simp: comp_def)
  have e: "tsegs = [] \<longleftrightarrow> segs = []"
    using s3(5) by (metis map_is_Nil_conv)
  have "map_option (map pipe_shape) ?pipes =
          (if segs = [] then None else Some (map (\<lambda>(n, as). (n, map Some as)) segs))"
    using s3(5) e by (simp add: comp_def)
  then show ?thesis
    using p a by blast
qed






subsection \<open>The first slash of a content text\<close>

text \<open>
  Whether a command may start after the text \<open>cs\<close> has been read as content, when
  \<open>b\<close> says whether one could start before it: a newline permits it, spaces and tabs
  leave it as it is, every other character forbids it.
\<close>

fun line_start :: "bool \<Rightarrow> string \<Rightarrow> bool" where
  "line_start b [] = b"
| "line_start b (c # cs) =
     line_start (if c = CHR 0x0A then True
                 else if c = CHR '' '' \<or> c = CHR 0x09 then b else False) cs"

lemma advance_canStartCommand:
  "advance (s\<lparr>canStartCommand := b\<rparr>) = (advance s)\<lparr>canStartCommand := b\<rparr>"
  "newline (s\<lparr>canStartCommand := b\<rparr>) = (newline s)\<lparr>canStartCommand := b\<rparr>"
  by (simp_all add: advance_def newline_def)

lemma advance_inCommandMode:
  "advance (s\<lparr>inCommandMode := b\<rparr>) = (advance s)\<lparr>inCommandMode := b\<rparr>"
  "newline (s\<lparr>inCommandMode := b\<rparr>) = (newline s)\<lparr>inCommandMode := b\<rparr>"
  by (simp_all add: advance_def newline_def)

lemma advance_over_canStartCommand:
  "advance_over cs (s\<lparr>canStartCommand := b\<rparr>) = (advance_over cs s)\<lparr>canStartCommand := b\<rparr>"
  by (induction cs arbitrary: s) (simp_all add: advance_canStartCommand)

lemma advance_over_inCommandMode:
  "advance_over cs (s\<lparr>inCommandMode := b\<rparr>) = (advance_over cs s)\<lparr>inCommandMode := b\<rparr>"
  by (induction cs arbitrary: s) (simp_all add: advance_inCommandMode)

lemma advance_over_snoc:
  "advance_over (cs @ [c]) s =
     (if c = CHR 0x0A then newline (advance (advance_over cs s)) else advance (advance_over cs s))"
  by (induction cs arbitrary: s) simp_all

lemma scanContent_loop_to_slash:
  assumes "rest s = pre @ CHR ''/'' # r" and "no_command_slash (canStartCommand s) pre"
    and "CHR ''{'' \<notin> set pre" and "CHR ''}'' \<notin> set pre" and "CHR 0x60 \<notin> set pre"
  shows "scanContent_loop False content s =
         (if line_start (canStartCommand s) pre
          then (content @ pre, (advance_over pre s)\<lparr>canStartCommand := True\<rparr>)
          else scanContent_loop False (content @ pre @ ''/'')
                 ((advance (advance_over pre s))\<lparr>canStartCommand := False\<rparr>))"
  using assms
proof (induction pre arbitrary: s content)
  case Nil
  have ne: "\<not> isAtEnd s"
    using Nil.prems(1) by (simp add: isAtEnd_def)
  show ?case
  proof (cases "canStartCommand s")
    case True
    then have "s\<lparr>canStartCommand := True\<rparr> = s"
      by simp
    then show ?thesis
      using True ne scanContent_body_slash [of s r False content] Nil.prems(1)
      by (subst scanContent_loop.simps) simp
  next
    case False
    then show ?thesis
      using ne scanContent_body_slash [of s r False content] Nil.prems(1)
      by (subst scanContent_loop.simps) simp
  qed
next
  case (Cons c pre)
  have ne: "\<not> isAtEnd s" and p: "peek s = c"
    using Cons.prems(1) by (simp_all add: isAtEnd_def peek_def)
  have c: "c \<noteq> CHR ''{''" "c \<noteq> CHR ''}''" "c \<noteq> CHR 0x60"
    using Cons.prems(3,4,5) by auto
  define b' where "b' = (if c = CHR 0x0A then True
                         else if c = CHR '' '' \<or> c = CHR 0x09 then canStartCommand s else False)"
  define s1 where "s1 = (if c = CHR 0x0A then newline (advance s) else advance s)
                          \<lparr>canStartCommand := b'\<rparr>"
  have body: "scanContent_body False content s = Some (False, content @ [c], s1)"
    using p c Cons.prems(2)
    by (auto simp: scanContent_body_def Let_def s1_def b'_def advance_def)
  have r1: "rest s1 = pre @ CHR ''/'' # r" "canStartCommand s1 = b'"
    using Cons.prems(1) by (simp_all add: s1_def)
  have n1: "no_command_slash (canStartCommand s1) pre"
    using Cons.prems(2) r1(2) by (auto simp: b'_def split: if_splits)
  have ao: "advance_over pre s1 = (advance_over (c # pre) s)\<lparr>canStartCommand := b'\<rparr>"
    by (simp add: s1_def advance_over_canStartCommand)
  have ls: "line_start (canStartCommand s) (c # pre) = line_start b' pre"
    by (simp add: b'_def)
  have "scanContent_loop False content s = scanContent_loop False (content @ [c]) s1"
    using ne body by (subst scanContent_loop.simps) simp
  also have "\<dots> =
         (if line_start (canStartCommand s1) pre
          then ((content @ [c]) @ pre, (advance_over pre s1)\<lparr>canStartCommand := True\<rparr>)
          else scanContent_loop False ((content @ [c]) @ pre @ ''/'')
                 ((advance (advance_over pre s1))\<lparr>canStartCommand := False\<rparr>))"
    using r1(1) n1 Cons.prems(3,4,5) by (intro Cons.IH) simp_all
  finally show ?case
    unfolding ls r1(2) ao by (simp add: advance_def)
qed

lemma scanContent_loop_tokens: "tokens (snd (scanContent_loop f c s)) = tokens s"
proof (induction f c s rule: scanContent_loop.induct)
  case (1 inCodeFence content s)
  show ?case
  proof (cases "isAtEnd s \<or> scanContent_body inCodeFence content s = None")
    case True
    then show ?thesis
      by (subst scanContent_loop.simps) auto
  next
    case False
    then obtain f' c' s' where b: "scanContent_body inCodeFence content s = Some (f', c', s')"
      and ne: "\<not> isAtEnd s"
      by auto
    have "tokens s' = tokens s"
      using b by (auto simp: scanContent_body_def Let_def scanWhile_eq consumeCodeFence_def
                    advance_def newline_def split: if_splits prod.splits)
    then show ?thesis
      using "1.IH" [OF ne b refl refl] b ne by (subst scanContent_loop.simps) simp
  qed
qed


lemma tokenize_loop_command_start:
  assumes "canStartCommand s" and "\<not> inCommandMode s"
    and "rest s = pre @ CHR ''/'' # r" and "no_command_slash True pre"
    and "CHR ''{'' \<notin> set pre" and "CHR ''}'' \<notin> set pre" and "CHR 0x60 \<notin> set pre"
    and "line_start True pre"
  shows "\<exists>s'. tokenize_loop s = tokenize_loop s' \<and> rest s' = CHR ''/'' # r
           \<and> canStartCommand s' \<and> \<not> inCommandMode s'
           \<and> currentPosition s' = currentPosition (advance_over pre s)
           \<and> token_kinds (tokens s') =
               token_kinds (tokens s)
                 @ (if list_all isWhiteSpace pre then []
                    else [(CONTENT, dropWhile (\<lambda>c. c = CHR 0x0A) pre)])"
  using assms
proof (induction pre arbitrary: s)
  case Nil
  then show ?case
    by (intro exI [of _ s]) simp
next
  case (Cons c pre)
  have ne: "\<not> isAtEnd s" and p: "peek s = c"
    using Cons.prems(3) by (simp_all add: isAtEnd_def peek_def)
  show ?case
  proof (cases "c = CHR 0x0A")
    case True
    let ?s1 = "(newline (advance s))\<lparr>canStartCommand := True, inCommandMode := False\<rparr>"
    have st: "scanToken s = Inr ?s1"
      using True p Cons.prems(1,2) by (simp add: scanToken_def Let_def)
    have r1: "rest ?s1 = pre @ CHR ''/'' # r" "tokens ?s1 = tokens s"
      using Cons.prems(3) by (simp_all add: advance_def newline_def)
    have cp: "currentPosition (advance_over pre ?s1) = currentPosition (advance_over (c # pre) s)"
      using True
      by (simp add: advance_over_canStartCommand advance_over_inCommandMode currentPosition_def)
    obtain s' where s': "tokenize_loop ?s1 = tokenize_loop s'" "rest s' = CHR ''/'' # r"
      "canStartCommand s'" "\<not> inCommandMode s'"
      "currentPosition s' = currentPosition (advance_over pre ?s1)"
      "token_kinds (tokens s') =
         token_kinds (tokens ?s1)
           @ (if list_all isWhiteSpace pre then []
              else [(CONTENT, dropWhile (\<lambda>c. c = CHR 0x0A) pre)])"
      using Cons.IH [of ?s1] r1(1) Cons.prems(4-8) True by auto
    have nl: "isWhiteSpace (CHR 0x0A)"
      by (simp add: isWhiteSpace_def)
    show ?thesis
      using tokenize_loop_step [OF ne st] s' r1(2) True cp nl
      by (intro exI [of _ s']) simp
  next
    case False
    have c: "c \<noteq> CHR ''{''" "c \<noteq> CHR ''}''" "c \<noteq> CHR ''/''"
      using Cons.prems(4,5,6) by auto
    have st: "scanToken s = Inr (scanContent (currentPosition s) s)"
      using False c p Cons.prems(1,2) by (simp add: scanToken_def Let_def)
    define a where "a = advance_over (c # pre) s"
    have a: "rest a = CHR ''/'' # r" "tokens a = tokens s" "\<not> inCommandMode a"
      unfolding a_def advance_over_fields using Cons.prems(2,3) by simp_all
    have l: "scanContent_loop False [] s = (c # pre, a\<lparr>canStartCommand := True\<rparr>)"
      unfolding a_def
      using scanContent_loop_to_slash [OF Cons.prems(3), of "[]"] Cons.prems(1,4-8) by simp
    define s2 where "s2 = scanContent (currentPosition s) s"
    have r2: "rest s2 = CHR ''/'' # r" "canStartCommand s2" "\<not> inCommandMode s2"
      "currentPosition s2 = currentPosition a"
      and t2: "token_kinds (tokens s2) =
                 token_kinds (tokens s)
                   @ (if list_all isWhiteSpace (c # pre) then [] else [(CONTENT, c # pre)])"
      using l a
      by (auto simp: s2_def scanContent_def trim_Nil_iff token_kinds_def addToken_def
            currentPosition_def)
    show ?thesis
      using tokenize_loop_step [OF ne st] r2 t2 False
      by (intro exI [of _ s2]) (simp add: s2_def a_def)
  qed
qed

lemma tokenize_loop_slash_in_content:
  assumes "canStartCommand s" and "\<not> inCommandMode s"
    and "rest s = pre @ CHR ''/'' # r" and "no_command_slash True pre"
    and "CHR ''{'' \<notin> set pre" and "CHR ''}'' \<notin> set pre" and "CHR 0x60 \<notin> set pre"
    and "\<not> line_start True pre"
  shows "\<exists>s' t more. tokenize_loop s = tokenize_loop s' \<and> tokens s' = tokens s @ [t]
           \<and> ttype t = CONTENT
           \<and> tvalue t = dropWhile (\<lambda>c. c = CHR 0x0A) pre @ CHR ''/'' # more"
  using assms
proof (induction pre arbitrary: s)
  case Nil
  then show ?case
    by simp
next
  case (Cons c pre)
  have ne: "\<not> isAtEnd s" and p: "peek s = c"
    using Cons.prems(3) by (simp_all add: isAtEnd_def peek_def)
  show ?case
  proof (cases "c = CHR 0x0A")
    case True
    let ?s1 = "(newline (advance s))\<lparr>canStartCommand := True, inCommandMode := False\<rparr>"
    have st: "scanToken s = Inr ?s1"
      using True p Cons.prems(1,2) by (simp add: scanToken_def Let_def)
    have r1: "rest ?s1 = pre @ CHR ''/'' # r" "tokens ?s1 = tokens s"
      using Cons.prems(3) by (simp_all add: advance_def newline_def)
    obtain s' t more where s': "tokenize_loop ?s1 = tokenize_loop s'"
      "tokens s' = tokens ?s1 @ [t]" "ttype t = CONTENT"
      "tvalue t = dropWhile (\<lambda>c. c = CHR 0x0A) pre @ CHR ''/'' # more"
      using Cons.IH [of ?s1] r1(1) Cons.prems(4-8) True by auto
    show ?thesis
      using tokenize_loop_step [OF ne st] s' r1(2) True
      by (intro exI [of _ s'] exI [of _ t] exI [of _ more]) simp
  next
    case False
    have c: "c \<noteq> CHR ''{''" "c \<noteq> CHR ''}''" "c \<noteq> CHR ''/''"
      using Cons.prems(4,5,6) by auto
    have st: "scanToken s = Inr (scanContent (currentPosition s) s)"
      using False c p Cons.prems(1,2) by (simp add: scanToken_def Let_def)
    let ?s1 = "(advance (advance_over (c # pre) s))\<lparr>canStartCommand := False\<rparr>"
    have l: "scanContent_loop False [] s = scanContent_loop False (c # pre @ ''/'') ?s1"
      using scanContent_loop_to_slash [OF Cons.prems(3), of "[]"] Cons.prems(1,4-8) by simp
    obtain more where m: "fst (scanContent_loop False (c # pre @ ''/'') ?s1) = (c # pre @ ''/'') @ more"
      using scanContent_loop_prefix by blast
    obtain s1 where l1: "scanContent_loop False [] s = (c # pre @ CHR ''/'' # more, s1)"
      using l m by (metis append_Cons append_Nil append_assoc prod.collapse)
    have t1: "tokens s1 = tokens s"
      using scanContent_loop_tokens [of False "[]" s] l1 by simp
    have nb: "trim (c # pre @ CHR ''/'' # more) \<noteq> []"
      by (simp add: trim_Nil_iff isWhiteSpace_def)
    define s2 where "s2 = scanContent (currentPosition s) s"
    have "\<exists>t. tokens s2 = tokens s @ [t] \<and> ttype t = CONTENT
            \<and> tvalue t = c # pre @ CHR ''/'' # more"
      using l1 t1 nb by (simp add: s2_def scanContent_def addToken_def)
    then show ?thesis
      using tokenize_loop_step [OF ne st] False
      by (intro exI [of _ s2]) (auto simp: s2_def)
  qed
qed


lemma line_start_append: "line_start b (xs @ ys) = line_start (line_start b xs) ys"
  by (induction xs arbitrary: b) simp_all

lemma line_start_blanks:
  "list_all (\<lambda>c. c = CHR '' '' \<or> c = CHR 0x09) ws \<Longrightarrow> line_start b ws = b"
  by (induction ws) auto

lemma line_start_iff:
  "line_start True pre \<longleftrightarrow>
     (\<exists>before ws. list_all (\<lambda>c. c = CHR '' '' \<or> c = CHR 0x09) ws
        \<and> (pre = ws \<or> pre = before @ CHR 0x0A # ws))"
proof
  show "\<exists>before ws. list_all (\<lambda>c. c = CHR '' '' \<or> c = CHR 0x09) ws
          \<and> (pre = ws \<or> pre = before @ CHR 0x0A # ws)"
    if "line_start True pre"
    using that
  proof (induction pre rule: rev_induct)
    case Nil
    then show ?case
      by simp
  next
    case (snoc c xs)
    show ?case
    proof (cases "c = CHR 0x0A")
      case True
      then show ?thesis
        by (intro exI [of _ xs] exI [of _ "[]"]) simp
    next
      case False
      then have c: "c = CHR '' '' \<or> c = CHR 0x09" and xs: "line_start True xs"
        using snoc.prems by (auto simp: line_start_append split: if_splits)
      obtain before ws where ws: "list_all (\<lambda>c. c = CHR '' '' \<or> c = CHR 0x09) ws"
        and d: "xs = ws \<or> xs = before @ CHR 0x0A # ws"
        using snoc.IH [OF xs] by blast
      show ?thesis
        using ws c d by (intro exI [of _ before] exI [of _ "ws @ [c]"]) auto
    qed
  qed
next
  assume "\<exists>before ws. list_all (\<lambda>c. c = CHR '' '' \<or> c = CHR 0x09) ws
            \<and> (pre = ws \<or> pre = before @ CHR 0x0A # ws)"
  then obtain before ws where ws: "list_all (\<lambda>c. c = CHR '' '' \<or> c = CHR 0x09) ws"
    and d: "pre = ws \<or> pre = before @ CHR 0x0A # ws"
    by blast
  have "line_start b (before @ CHR 0x0A # ws) = True" for b
    using line_start_blanks [OF ws, of True] by (simp add: line_start_append)
  then show "line_start True pre"
    using d line_start_blanks [OF ws, of True] by auto
qed

lemma scanString_loop_plain:
  assumes "rest s = body @ q # r" and "q \<notin> set body" and "CHR 0x5C \<notin> set body"
  shows "scanString_loop q v s = (v @ body, advance_over body s)"
  using assms
proof (induction body arbitrary: s v)
  case Nil
  then show ?case
    by (subst scanString_loop.simps) (simp add: isAtEnd_def peek_def)
next
  case (Cons c body)
  have ne: "\<not> isAtEnd s" and p: "peek s = c"
    using Cons.prems(1) by (simp_all add: isAtEnd_def peek_def)
  have c: "c \<noteq> q" "c \<noteq> CHR 0x5C"
    using Cons.prems(2,3) by auto
  let ?s1 = "if c = CHR 0x0A then newline (advance s) else advance s"
  have "scanString_loop q v s = scanString_loop q (v @ [c]) ?s1"
    using ne p c by (subst scanString_loop.simps) simp
  also have "\<dots> = ((v @ [c]) @ body, advance_over body ?s1)"
    using Cons.prems by (intro Cons.IH) auto
  finally show ?case
    by simp
qed

lemma scanToken_string:
  assumes "inCommandMode s" and "rest s = q # body @ q # r" and "q = CHR 0x22 \<or> q = CHR 0x27"
    and "q \<notin> set body" and "CHR 0x5C \<notin> set body"
  shows "\<exists>s' t. scanToken s = Inr s' \<and> tokens s' = tokens s @ [t] \<and> ttype t = STRING
           \<and> tvalue t = body \<and> rest s' = r
           \<and> canStartCommand s' = canStartCommand s \<and> inCommandMode s'"
proof -
  have l: "scanString_loop q [] (advance s) = ([] @ body, advance_over body (advance s))"
    using assms(2,4,5) by (intro scanString_loop_plain) simp
  define a where "a = advance_over body (advance s)"
  have a: "rest a = q # r" "tokens a = tokens s" "canStartCommand a = canStartCommand s"
    "inCommandMode a"
    unfolding a_def advance_over_fields using assms(1,2) by (simp_all add: advance_def)
  have "scanString (currentPosition s) s = Inr (addToken STRING body (currentPosition s) (advance a))"
    using l a(1) assms(2) by (simp add: scanString_def peek_def Let_def isAtEnd_def a_def)
  then show ?thesis
    using scanToken_quote [OF assms(1,2,3)] a by (simp add: addToken_def advance_def)
qed

lemma scanToken_value:
  assumes "inCommandMode s" and "\<not> canStartCommand s" and "rest s = w @ tail"
    and "w \<noteq> []" and "list_all isValueChar w"
    and "hd w \<noteq> CHR ''-''" and "hd w \<noteq> CHR 0x22" and "hd w \<noteq> CHR 0x27"
    and "tail = [] \<or> \<not> isValueChar (hd tail)"
  shows "\<exists>s' t. scanToken s = Inr s' \<and> tokens s' = tokens s @ [t] \<and> ttype t = VALUE
           \<and> tvalue t = w \<and> rest s' = tail \<and> \<not> canStartCommand s' \<and> inCommandMode s'"
proof -
  obtain c cs where w: "w = c # cs"
    using assms(4) by (cases w) simp_all
  have c: "isValueChar c" "c \<noteq> CHR ''-''" "c \<noteq> CHR 0x22" "c \<noteq> CHR 0x27" "list_all isValueChar cs"
    using assms(5,6,7,8) w by simp_all
  have c': "c \<noteq> CHR '' ''" "c \<noteq> CHR 0x09" "c \<noteq> CHR 0x0D" "c \<noteq> CHR 0x0A" "c \<noteq> CHR ''{''"
    "c \<noteq> CHR ''}''" "c \<noteq> CHR ''|''"
    using c(1) by (auto simp: isValueChar_def isWhiteSpace_def)
  have tl: "takeWhile isValueChar tail = []" "dropWhile isValueChar tail = tail"
    using assms(9) by (cases tail; auto)+
  have tw: "takeWhile isValueChar (cs @ tail) = cs" "dropWhile isValueChar (cs @ tail) = tail"
    using c(5) tl by (simp_all add: list_all_iff)
  have "scanToken s = Inr (addToken VALUE w (currentPosition s) (snd (scanWhile isValueChar [] s)))"
    using assms(1,2,3) c c' tw w
    by (simp add: scanToken_def scanCommandPart_def peek_def Let_def scanWhile_eq)
  then show ?thesis
    using assms(1,2,3) c tw w by (simp add: scanWhile_eq addToken_def)
qed

lemma scanToken_newline_state:
  assumes "rest s = CHR 0x0A # r"
  shows "\<exists>s'. scanToken s = Inr s' \<and> canStartCommand s' \<and> \<not> inCommandMode s' \<and> rest s' = r
           \<and> tokens s' = tokens s"
  using assms by (simp add: scanToken_def peek_def Let_def advance_def newline_def)

lemma scanToken_brace_state:
  assumes "rest s = c # r" and "c = CHR ''{'' \<or> c = CHR ''}''"
  shows "\<exists>s'. scanToken s = Inr s' \<and> canStartCommand s' \<and> \<not> inCommandMode s'
           \<and> (c = CHR ''}'' \<or> currentCommand s \<notin> RAW_BLOCK_COMMANDS \<longrightarrow>
                rest s' = r
                \<and> token_kinds (tokens s') =
                    token_kinds (tokens s) @ [(if c = CHR ''{'' then LBRACE else RBRACE, [c])])"
  using assms
  by (auto simp: scanToken_def peek_def Let_def scanRawBlock_def token_kinds_def addToken_def
        advance_def split: prod.splits)

lemma scanToken_blank_command_mode:
  assumes "inCommandMode s" and "rest s = c # r" and "c = CHR '' '' \<or> c = CHR 0x09 \<or> c = CHR 0x0D"
  shows "scanToken s = Inr (advance s)"
  using assms by (auto simp: scanToken_def peek_def Let_def)


lemma scanContent_loop_fence_line:
  assumes "rest s = ln @ CHR 0x0A # r" and "CHR 0x0A \<notin> set ln"
    and "\<not> (canStartCommand s \<and> take 3 ln = ''```'')"
  shows "scanContent_loop True content s =
         scanContent_loop True (content @ ln @ [CHR 0x0A])
           ((advance_over (ln @ [CHR 0x0A]) s)\<lparr>canStartCommand := True\<rparr>)"
  using assms
proof (induction ln arbitrary: s content)
  case Nil
  have ne: "\<not> isAtEnd s" and p: "peek s = CHR 0x0A"
    using Nil.prems(1) by (simp_all add: isAtEnd_def peek_def)
  have "scanContent_body True content s =
          Some (True, content @ [CHR 0x0A], (newline (advance s))\<lparr>canStartCommand := True\<rparr>)"
    using p by (simp add: scanContent_body_def Let_def)
  then show ?case
    using ne by (subst scanContent_loop.simps) simp
next
  case (Cons c ln)
  have ne: "\<not> isAtEnd s" and p: "peek s = c"
    using Cons.prems(1) by (simp_all add: isAtEnd_def peek_def)
  have c: "c \<noteq> CHR 0x0A"
    using Cons.prems(2) by auto
  have m: "matchCodeFence s \<longleftrightarrow> take 3 (c # ln) = ''```''"
    using Cons.prems(1,2)
    by (cases ln; cases "tl ln") (auto simp: matchCodeFence_def split: list.splits)
  let ?s1 = "(advance s)\<lparr>canStartCommand := False\<rparr>"
  have body: "scanContent_body True content s = Some (True, content @ [c], ?s1)"
    using p c m Cons.prems(3) by (auto simp: scanContent_body_def Let_def)
  have r1: "rest ?s1 = ln @ CHR 0x0A # r" "\<not> canStartCommand ?s1"
    using Cons.prems(1) by simp_all
  have "scanContent_loop True content s = scanContent_loop True (content @ [c]) ?s1"
    using ne body by (subst scanContent_loop.simps) simp
  also have "\<dots> = scanContent_loop True ((content @ [c]) @ ln @ [CHR 0x0A])
                     ((advance_over (ln @ [CHR 0x0A]) ?s1)\<lparr>canStartCommand := True\<rparr>)"
    using r1 Cons.prems(2) by (intro Cons.IH) simp_all
  finally show ?case
    using c by (simp add: advance_over_canStartCommand)
qed

lemma scanContent_body_flag:
  assumes "rest s = c # r" and "c \<noteq> CHR ''{''" and "c \<noteq> CHR ''}''" and "c \<noteq> CHR ''/''"
    and "\<not> (c = CHR 0x60 \<and> canStartCommand s \<and> matchCodeFence s)"
  shows "\<exists>content' s'. scanContent_body False content s = Some (False, content', s')
           \<and> tokens s' = tokens s
           \<and> canStartCommand s' =
               (c = CHR 0x0A \<or> ((c = CHR '' '' \<or> c = CHR 0x09) \<and> canStartCommand s))"
proof -
  have p: "peek s = c"
    using assms(1) by (simp add: peek_def)
  show ?thesis
  proof (cases "c = CHR 0x60")
    case True
    then show ?thesis
      using p assms(5)
      by (auto simp: scanContent_body_def Let_def scanWhile_eq advance_def split: prod.splits)
  next
    case False
    then show ?thesis
      using p assms(2,3,4)
      by (auto simp: scanContent_body_def Let_def advance_def newline_def)
  qed
qed

lemma scanContent_body_fence_toggle:
  assumes "rest s = CHR 0x60 # r" and "canStartCommand s" and "matchCodeFence s"
  shows "\<exists>content' s'. scanContent_body f content s = Some (\<not> f, content', s')
           \<and> tokens s' = tokens s \<and> \<not> canStartCommand s'"
  using assms
  by (auto simp: scanContent_body_def Let_def peek_def consumeCodeFence_def scanWhile_eq
        advance_def split: prod.splits)

lemma tokenize_loop_command_at_line_start:
  assumes "canStartCommand s" and "\<not> inCommandMode s"
    and "rest s = pre @ CHR ''/'' # r" and "no_command_slash True pre"
    and "CHR ''{'' \<notin> set pre" and "CHR ''}'' \<notin> set pre" and "CHR 0x60 \<notin> set pre"
    and "line_start True pre"
  shows "takeWhile isIdentifierChar r = [] \<Longrightarrow>
           tokenize_loop s =
             Inl (LexError (''Expected command name after / at line ''
                              @ show_nat (cur_line (advance_over pre s)) @ '', column ''
                              @ show_nat (cur_column (advance_over pre s))))"
    and "takeWhile isIdentifierChar r \<noteq> [] \<Longrightarrow>
           \<exists>s'. tokenize_loop s = tokenize_loop s'
             \<and> token_kinds (tokens s') =
                 token_kinds (tokens s)
                   @ (if list_all isWhiteSpace pre then []
                       else [(CONTENT, dropWhile (\<lambda>c. c = CHR 0x0A) pre)])
                   @ [(COMMAND, takeWhile isIdentifierChar r)]
             \<and> rest s' = dropWhile isIdentifierChar r
             \<and> inCommandMode s' \<and> \<not> canStartCommand s'"
proof -
  obtain s1 where s1: "tokenize_loop s = tokenize_loop s1" "rest s1 = CHR ''/'' # r"
    "canStartCommand s1" "currentPosition s1 = currentPosition (advance_over pre s)"
    "token_kinds (tokens s1) =
       token_kinds (tokens s)
         @ (if list_all isWhiteSpace pre then []
                       else [(CONTENT, dropWhile (\<lambda>c. c = CHR 0x0A) pre)])"
    using tokenize_loop_command_start [OF assms] by blast
  have ne: "\<not> isAtEnd s1"
    using s1(2) by (simp add: isAtEnd_def)
  have p: "line (currentPosition s1) = cur_line (advance_over pre s)"
    "column (currentPosition s1) = cur_column (advance_over pre s)"
    unfolding s1(4) by (simp_all add: currentPosition_def)
  have st: "scanToken s1 = scanCommand (currentPosition s1) s1"
    using scanToken_slash_start [OF s1(2,3)] .
  note c = scanCommand_slash [OF s1(2), of "currentPosition s1"]
  show "tokenize_loop s =
             Inl (LexError (''Expected command name after / at line ''
                              @ show_nat (cur_line (advance_over pre s)) @ '', column ''
                              @ show_nat (cur_column (advance_over pre s))))"
    if "takeWhile isIdentifierChar r = []"
    unfolding s1(1) using that ne st c p by (subst tokenize_loop.simps) simp
  show "\<exists>s'. tokenize_loop s = tokenize_loop s'
             \<and> token_kinds (tokens s') =
                 token_kinds (tokens s)
                   @ (if list_all isWhiteSpace pre then []
                       else [(CONTENT, dropWhile (\<lambda>c. c = CHR 0x0A) pre)])
                   @ [(COMMAND, takeWhile isIdentifierChar r)]
             \<and> rest s' = dropWhile isIdentifierChar r
             \<and> inCommandMode s' \<and> \<not> canStartCommand s'"
    if n: "takeWhile isIdentifierChar r \<noteq> []"
  proof -
    obtain s2 where s2: "scanToken s1 = Inr s2" "rest s2 = dropWhile isIdentifierChar r"
      "inCommandMode s2" "\<not> canStartCommand s2"
      "token_kinds (tokens s2) = token_kinds (tokens s1) @ [(COMMAND, takeWhile isIdentifierChar r)]"
      using st c n by (simp add: token_kinds_def)
    show ?thesis
      using tokenize_loop_step [OF ne s2(1)] s1(1,5) s2
      by (intro exI [of _ s2]) simp
  qed
qed





end
